theory Spec2Isabelle
  imports Complex_Main "HOL-Library.Word"
begin

text \<open>
  The image-to-text conversion of the ASCII art converter component: the function
  \<open>convertToAscii\<close> with its helper \<open>adjustColorBrightness\<close> and the table
  \<open>charSets\<close>.  The component exists in two copies; the model follows the newer one,
  which takes the image size from \<open>naturalWidth || width\<close>.  The older copy reads
  \<open>img.width\<close> and \<open>img.height\<close> directly and is otherwise the same in everything
  modelled here; both clear text and grid in the \<open>catch\<close> block.

  Numbers are JavaScript numbers.  Loop counters, strides and buffer offsets are integers
  far below \<open>2 ^ 53\<close> (the buffer holds \<open>4 * imgWidth * imgHeight\<close> bytes), where
  addition and multiplication of doubles are exact; they are modelled by \<open>int\<close>.
  Everything else goes through the rounding function below.
\<close>

section \<open>JavaScript numbers: IEEE-754 binary64 with round-to-nearest-even\<close>

text \<open>
  Every arithmetic operator of the source works on JavaScript numbers, that is on
  binary64 values.  A finite double is modelled by the real number it denotes; an
  operation returns the exact real result rounded to the nearest double, ties to even
  (\<open>rnd\<close>).  The binade of \<open>x\<close> is \<open>expo x\<close>, clamped below at \<open>-1022\<close> so
  that subnormal numbers share the spacing \<open>2 powi (-1074)\<close>.  Overflow is not modelled:
  image dimensions are 32-bit and every intermediate value of the conversion is far
  below \<open>2 ^ 1024\<close>.  The only non-finite value the conversion can produce is
  \<open>+Infinity\<close> from a division by zero; it is written out where it arises.
\<close>

definition round_even :: "real \<Rightarrow> int" where
  "round_even t = (let f = \<lfloor>t\<rfloor>; d = t - of_int f in
     if d < 1/2 then f else if 1/2 < d then f + 1 else if even f then f else f + 1)"

function ilog2 :: "real \<Rightarrow> int" where
  "ilog2 x = (if 2 \<le> x then ilog2 (x / 2) + 1
              else if 0 < x \<and> x < 1 then ilog2 (2 * x) - 1
              else 0)"
  by pat_completeness auto
termination
proof (relation "measure (\<lambda>x. nat \<lceil>x\<rceil> + 2 * nat \<lceil>1 / x\<rceil>)")
  show "wf (measure (\<lambda>x::real. nat \<lceil>x\<rceil> + 2 * nat \<lceil>1 / x\<rceil>))" by simp
next
  fix x :: real assume x: "2 \<le> x"
  have a: "\<lceil>1 / x\<rceil> = 1" using x by (simp add: ceiling_eq_iff)
  have b: "\<lceil>1 / (x / 2)\<rceil> = 1" using x by (simp add: ceiling_eq_iff)
  have "x / 2 \<le> of_int (\<lceil>x\<rceil> - 1)" using x le_of_int_ceiling[of x] by linarith
  then have c: "\<lceil>x / 2\<rceil> \<le> \<lceil>x\<rceil> - 1" by (simp only: ceiling_le_iff)
  have d: "2 \<le> \<lceil>x\<rceil>" using x by (simp add: le_ceiling_iff)
  show "(x / 2, x) \<in> measure (\<lambda>x. nat \<lceil>x\<rceil> + 2 * nat \<lceil>1 / x\<rceil>)"
    using a b c d by simp
next
  fix x :: real assume "\<not> 2 \<le> x" and x: "0 < x \<and> x < 1"
  have a: "\<lceil>x\<rceil> = 1" using x by (simp add: ceiling_eq_iff)
  have b: "\<lceil>2 * x\<rceil> \<le> 2" using x by (simp add: ceiling_le_iff)
  have t: "1 < 1 / x" using x by simp
  have d: "2 \<le> \<lceil>1 / x\<rceil>" using t by (simp add: le_ceiling_iff)
  have "1 / x \<le> of_int \<lceil>1 / x\<rceil>" by (rule le_of_int_ceiling)
  then have "1 / (2 * x) \<le> of_int \<lceil>1 / x\<rceil> / 2" by simp
  also have "\<dots> \<le> of_int (\<lceil>1 / x\<rceil> - 1)" using d by simp
  finally have c: "\<lceil>1 / (2 * x)\<rceil> \<le> \<lceil>1 / x\<rceil> - 1" by (simp only: ceiling_le_iff)
  show "(2 * x, x) \<in> measure (\<lambda>x. nat \<lceil>x\<rceil> + 2 * nat \<lceil>1 / x\<rceil>)"
    unfolding in_measure using a b c d by linarith
qed

definition expo :: "real \<Rightarrow> int" where
  "expo x = max (ilog2 \<bar>x\<bar>) (- 1022)"

definition ulp :: "real \<Rightarrow> real" where
  "ulp x = 2 powi (expo x - 52)"

definition rnd :: "real \<Rightarrow> real" where
  "rnd x = of_int (round_even (x / ulp x)) * ulp x"

definition fadd :: "real \<Rightarrow> real \<Rightarrow> real" where
  "fadd a b = rnd (a + b)"

definition fsub :: "real \<Rightarrow> real \<Rightarrow> real" where
  "fsub a b = rnd (a - b)"

definition fmul :: "real \<Rightarrow> real \<Rightarrow> real" where
  "fmul a b = rnd (a * b)"

text \<open>\<open>fdiv\<close> is the quotient of finite doubles with a non-zero divisor; the source's
  divisions by a possibly zero value are guarded where they occur.\<close>

definition fdiv :: "real \<Rightarrow> real \<Rightarrow> real" where
  "fdiv a b = rnd (a / b)"

text \<open>\<open>Math.sqrt\<close>: the correctly rounded square root every engine provides.\<close>

definition fsqrt :: "real \<Rightarrow> real" where
  "fsqrt a = rnd (sqrt a)"

text \<open>\<open>Math.round\<close> rounds to the nearest integer, ties towards \<open>+Infinity\<close>.\<close>

definition js_round :: "real \<Rightarrow> int" where
  "js_round x = \<lfloor>x + 1/2\<rfloor>"

text \<open>Loop counters and strides are integral numbers or \<open>+Infinity\<close>.\<close>

datatype jsnum = Num int | Infinity

fun jsnum_add :: "jsnum \<Rightarrow> jsnum \<Rightarrow> jsnum" where
  "jsnum_add (Num a) (Num b) = Num (a + b)"
| "jsnum_add _ _ = Infinity"

section \<open>Data model\<close>

text \<open>A JavaScript string is a sequence of UTF-16 code units.\<close>

type_synonym jsstring = "nat list"

definition ascii :: "string \<Rightarrow> jsstring" where
  "ascii s = map of_char s"

text \<open>The \<open>color\<close> string of a cell is either \<open>"white"\<close> or the template
  \<open>rgb(r, g, b)\<close>; \<open>RgbNaN\<close> is the template filled with \<open>NaN\<close>, which is what
  the arithmetic yields when a channel read is \<open>undefined\<close>.\<close>

datatype color = White | Rgb int int int | RgbNaN

text \<open>\<open>char\<close> is one code unit, or \<open>None\<close> for \<open>undefined\<close> (an index outside
  the ramp).\<close>

record ColoredChar =
  char :: "nat option"
  color :: color

record ConversionSettings =
  resolution :: real
  charSet :: string
  inverted :: bool
  grayscale :: bool

text \<open>The \<open>chars\<close> field of the entry of \<open>charSets\<close> under a key; a key that is
  not in the table gives \<open>undefined\<close>, whose \<open>.chars\<close> raises a \<open>TypeError\<close>.\<close>

definition charSets :: "string \<Rightarrow> jsstring option" where
  "charSets key =
    (if key = ''standard'' then Some (ascii '' .:-=+*#%@'')
     else if key = ''detailed'' then Some (ascii '' .,:;i1tfLCG08@'')
     else if key = ''blocks'' then Some [32, 9617, 9618, 9619, 9608]
     else if key = ''minimal'' then Some [32, 46, 58, 9608]
     else if key = ''artistic'' then Some
       [32, 46, 39, 96, 94, 34, 44, 58, 59, 73, 108, 33, 105, 62, 60, 126, 43, 95, 45, 63,
        93, 91, 125, 123, 49, 41, 40, 124, 92, 47, 116, 102, 106, 114, 120, 110, 117, 118,
        99, 122, 88, 89, 85, 74, 67, 76, 81, 48, 79, 90, 109, 119, 113, 112, 100, 98, 107,
        104, 97, 111, 42, 35, 77, 87, 38, 56, 37, 66, 64, 36]
     else if key = ''retro'' then Some (ascii '' .:;+=xX$&@'')
     else None)"

text \<open>The image element as the conversion reads it.\<close>

record HTMLImageElement =
  naturalWidth :: nat
  naturalHeight :: nat
  width :: nat
  height :: nat

text \<open>What the conversion finds around it: whether \<open>canvasRef.current\<close> is set, the
  image in \<open>imageRef.current\<close>, whether \<open>getContext("2d")\<close> returns a context, and
  the RGBA bytes \<open>getImageData\<close> returns for the drawn image (\<open>None\<close> when it
  throws, as it does on a tainted canvas).\<close>

record Env =
  canvasRef :: bool
  imageRef :: "HTMLImageElement option"
  context2d :: bool
  imageData :: "8 word list option"

datatype ConversionError =
    NotAvailable          \<comment> \<open>"Canvas or image not available"\<close>
  | InvalidDimensions     \<comment> \<open>"Invalid image dimensions"\<close>
  | ContextUnavailable    \<comment> \<open>"Could not get canvas context"\<close>
  | PixelAccessDenied     \<comment> \<open>"Failed to get image data. This might be a CORS issue."\<close>
  | TypeError             \<comment> \<open>reading \<open>.chars\<close> of \<open>undefined\<close>\<close>

text \<open>The three pieces of component state the conversion sets.\<close>

record State =
  asciiArt :: jsstring
  coloredAsciiArt :: "ColoredChar list list"
  error :: "ConversionError option"

section \<open>The conversion\<close>

definition adjustColorBrightness :: "nat \<Rightarrow> nat \<Rightarrow> nat \<Rightarrow> real \<Rightarrow> color" where
  "adjustColorBrightness r g b factor =
    (let minBrightness = 40;
         r' = max (min (js_round (fmul (real r) factor)) 255) minBrightness;
         g' = max (min (js_round (fmul (real g) factor)) 255) minBrightness;
         b' = max (min (js_round (fmul (real b) factor)) 255) minBrightness
     in Rgb r' g' b')"

text \<open>The decimal literals \<open>0.299\<close>, \<open>0.587\<close> and \<open>0.114\<close> denote the doubles
  nearest to them; \<open>255\<close>, \<open>1\<close>, \<open>1.5\<close> and \<open>0.5\<close> are doubles themselves.\<close>

definition brightness :: "ConversionSettings \<Rightarrow> nat \<Rightarrow> nat \<Rightarrow> nat \<Rightarrow> real" where
  "brightness settings r g b =
    (let br =
       (if grayscale settings then
          fdiv (fadd (fadd (fmul (real r) (rnd (299/1000))) (fmul (real g) (rnd (587/1000))))
                     (fmul (real b) (rnd (114/1000)))) 255
        else
          fsqrt (fadd (fadd (fmul (fmul (rnd (299/1000)) (fdiv (real r) 255)) (fdiv (real r) 255))
                            (fmul (fmul (rnd (587/1000)) (fdiv (real g) 255)) (fdiv (real g) 255)))
                      (fmul (fmul (rnd (114/1000)) (fdiv (real b) 255)) (fdiv (real b) 255))))
     in if inverted settings then fsub 1 br else br)"

definition charIndex :: "jsstring \<Rightarrow> real \<Rightarrow> int" where
  "charIndex chars br = \<lfloor>fmul br (of_int (int (length chars) - 1))\<rfloor>"

text \<open>\<open>chars[charIndex]\<close>: \<open>undefined\<close> outside the string.\<close>

definition char_at :: "jsstring \<Rightarrow> int \<Rightarrow> nat option" where
  "char_at chars i = (if 0 \<le> i \<and> nat i < length chars then Some (chars ! nat i) else None)"

text \<open>No ramp of \<open>charSets\<close> has length one, so the divisor is not zero.\<close>

definition brightnessFactor :: "jsstring \<Rightarrow> int \<Rightarrow> real" where
  "brightnessFactor chars ci =
     fadd (fmul (fdiv (of_int ci) (of_int (int (length chars) - 1))) (3/2)) (1/2)"

text \<open>\<open>data[i]\<close> on the \<open>Uint8ClampedArray\<close>: \<open>undefined\<close> outside the array.\<close>

definition data_at :: "8 word list \<Rightarrow> int \<Rightarrow> nat option" where
  "data_at data i = (if 0 \<le> i \<and> nat i < length data then Some (unat (data ! nat i)) else None)"

text \<open>\<open>result += char\<close>: an \<open>undefined\<close> is appended as the text \<open>undefined\<close>.\<close>

definition char_text :: "nat option \<Rightarrow> jsstring" where
  "char_text ch = (case ch of Some c \<Rightarrow> [c] | None \<Rightarrow> ascii ''undefined'')"

definition append_char :: "jsstring \<Rightarrow> nat option \<Rightarrow> jsstring" where
  "append_char result ch = result @ char_text ch"

text \<open>The body of the inner loop at pixel \<open>(x, y)\<close>: the cell it pushes.  When a channel
  read is \<open>undefined\<close> every number derived from it is \<open>NaN\<close>, and \<open>chars[NaN]\<close>
  is \<open>undefined\<close>.\<close>

definition pixel_cell ::
  "nat \<Rightarrow> 8 word list \<Rightarrow> jsstring \<Rightarrow> ConversionSettings \<Rightarrow> int \<Rightarrow> int \<Rightarrow> ColoredChar" where
  "pixel_cell imgWidth data chars settings y x =
    (let pos = (y * int imgWidth + x) * 4 in
     case (data_at data pos, data_at data (pos + 1), data_at data (pos + 2)) of
       (Some r, Some g, Some b) \<Rightarrow>
         (let ci = charIndex chars (brightness settings r g b);
              ch = char_at chars ci
          in if \<not> grayscale settings
             then \<lparr>char = ch, color = adjustColorBrightness r g b (brightnessFactor chars ci)\<rparr>
             else \<lparr>char = ch, color = White\<rparr>)
     | _ \<Rightarrow> \<lparr>char = None, color = (if \<not> grayscale settings then RgbNaN else White)\<rparr>)"

text \<open>The inner loop \<open>for (let x = 0; x < imgWidth; x += widthStep)\<close>, from counter
  value \<open>xv\<close> on, with the accumulated \<open>result\<close> and \<open>coloredRow\<close>.  A stride that is
  not positive makes the loop run forever: the result is \<open>None\<close>.\<close>

partial_function (option) row_loop ::
  "nat \<Rightarrow> 8 word list \<Rightarrow> jsstring \<Rightarrow> ConversionSettings \<Rightarrow> jsnum \<Rightarrow> int \<Rightarrow> jsnum \<Rightarrow>
   jsstring \<times> ColoredChar list \<Rightarrow> (jsstring \<times> ColoredChar list) option" where
  "row_loop imgWidth data chars settings widthStep y xv acc =
    (case xv of
       Infinity \<Rightarrow> Some acc
     | Num xi \<Rightarrow>
        if xi < int imgWidth then
          row_loop imgWidth data chars settings widthStep y (jsnum_add xv widthStep)
            (append_char (fst acc) (char (pixel_cell imgWidth data chars settings y xi)),
             snd acc @ [pixel_cell imgWidth data chars settings y xi])
        else Some acc)"

text \<open>The outer loop \<open>for (let y = 0; y < imgHeight; y += heightStep)\<close>, with the
  accumulated \<open>result\<close> and \<open>coloredResult\<close>.\<close>

partial_function (option) col_loop ::
  "nat \<Rightarrow> nat \<Rightarrow> 8 word list \<Rightarrow> jsstring \<Rightarrow> ConversionSettings \<Rightarrow> jsnum \<Rightarrow> jsnum \<Rightarrow> jsnum \<Rightarrow>
   jsstring \<times> ColoredChar list list \<Rightarrow> (jsstring \<times> ColoredChar list list) option" where
  "col_loop imgWidth imgHeight data chars settings widthStep heightStep yv acc =
    (case yv of
       Infinity \<Rightarrow> Some acc
     | Num yi \<Rightarrow>
        if yi < int imgHeight then
          Option.bind (row_loop imgWidth data chars settings widthStep yi (Num 0) (fst acc, []))
            (\<lambda>row. col_loop imgWidth imgHeight data chars settings widthStep heightStep
                      (jsnum_add yv heightStep) (fst row @ [10], snd acc @ [snd row]))
        else Some acc)"

text \<open>\<open>Math.ceil(imgWidth / width)\<close> and \<open>Math.ceil(imgHeight / height / fontAspect)\<close>
  with \<open>fontAspect = 0.5\<close>.  Both are reached with positive image dimensions only, so a
  zero divisor gives \<open>+Infinity\<close>.\<close>

definition widthStep_of :: "nat \<Rightarrow> int \<Rightarrow> jsnum" where
  "widthStep_of imgWidth width' =
    (if width' = 0 then Infinity else Num \<lceil>fdiv (real imgWidth) (of_int width')\<rceil>)"

definition heightStep_of :: "nat \<Rightarrow> int \<Rightarrow> jsnum" where
  "heightStep_of imgHeight height' =
    (let fontAspect = 1/2 in
     if height' = 0 then Infinity
     else Num \<lceil>fdiv (fdiv (real imgHeight) (of_int height')) fontAspect\<rceil>)"

text \<open>\<open>Math.floor(imgWidth * settings.resolution)\<close>, and the same for the height.\<close>

definition sample_size :: "nat \<Rightarrow> real \<Rightarrow> int" where
  "sample_size n res = \<lfloor>fmul (real n) res\<rfloor>"

text \<open>\<open>naturalWidth || img.width\<close> and \<open>naturalHeight || img.height\<close>.\<close>

definition imgWidth_of :: "HTMLImageElement \<Rightarrow> nat" where
  "imgWidth_of img = (if naturalWidth img \<noteq> 0 then naturalWidth img else width img)"

definition imgHeight_of :: "HTMLImageElement \<Rightarrow> nat" where
  "imgHeight_of img = (if naturalHeight img \<noteq> 0 then naturalHeight img else height img)"

text \<open>The \<open>try\<close> block of \<open>convertToAscii\<close>: \<open>Inl\<close> for each \<open>throw\<close>,
  \<open>Inr (result, coloredResult)\<close> when the loops finish, \<open>None\<close> when they do not.\<close>

definition convert_try ::
  "Env \<Rightarrow> ConversionSettings \<Rightarrow> (ConversionError + jsstring \<times> ColoredChar list list) option" where
  "convert_try env settings =
    (case imageRef env of
       None \<Rightarrow> Some (Inl NotAvailable)
     | Some img \<Rightarrow>
        if \<not> canvasRef env then Some (Inl NotAvailable)
        else
          let imgWidth = imgWidth_of img;
              imgHeight = imgHeight_of img
          in
          if imgWidth = 0 \<or> imgHeight = 0 then Some (Inl InvalidDimensions)
          else if \<not> context2d env then Some (Inl ContextUnavailable)
          else
            let width' = sample_size imgWidth (resolution settings);
                height' = sample_size imgHeight (resolution settings)
            in
            case imageData env of
              None \<Rightarrow> Some (Inl PixelAccessDenied)
            | Some data \<Rightarrow>
               (case charSets (charSet settings) of
                  None \<Rightarrow> Some (Inl TypeError)
                | Some chars \<Rightarrow>
                   map_option Inr
                     (col_loop imgWidth imgHeight data chars settings
                        (widthStep_of imgWidth width') (heightStep_of imgHeight height')
                        (Num 0) ([], []))))"

text \<open>\<open>convertToAscii\<close> with its \<open>catch\<close>: the state after the call.\<close>

definition convertToAscii :: "Env \<Rightarrow> ConversionSettings \<Rightarrow> State \<Rightarrow> State option" where
  "convertToAscii env settings st =
    (case convert_try env settings of
       None \<Rightarrow> None
     | Some (Inr out) \<Rightarrow>
         Some (st\<lparr>asciiArt := fst out, coloredAsciiArt := snd out, error := None\<rparr>)
     | Some (Inl err) \<Rightarrow>
         Some (st\<lparr>error := Some err, asciiArt := [], coloredAsciiArt := []\<rparr>))"

section \<open>The result of the loops in closed form\<close>

text \<open>The counter values of a loop \<open>for (i = i0; i < n; i += step)\<close> that ends: a
  positive finite stride walks up to \<open>n\<close>, an infinite stride leaves after the first
  round.\<close>

function walk :: "int \<Rightarrow> int \<Rightarrow> int \<Rightarrow> int list" where
  "walk step n i = (if 0 < step \<and> i < n then i # walk step n (i + step) else [])"
  by pat_completeness auto
termination
  by (relation "measure (\<lambda>(step, n, i). nat (n - i))") auto

definition samples_from :: "jsnum \<Rightarrow> nat \<Rightarrow> int \<Rightarrow> int list" where
  "samples_from step n i =
    (case step of Infinity \<Rightarrow> (if i < int n then [i] else []) | Num k \<Rightarrow> walk k (int n) i)"

definition samples :: "jsnum \<Rightarrow> nat \<Rightarrow> int list" where
  "samples step n = samples_from step n 0"

text \<open>A stride with which a loop that is entered also ends.\<close>

fun step_pos :: "jsnum \<Rightarrow> bool" where
  "step_pos Infinity = True"
| "step_pos (Num k) = (0 < k)"

definition row_text :: "ColoredChar list \<Rightarrow> jsstring" where
  "row_text row = concat (map (\<lambda>cell. char_text (char cell)) row)"

definition text_of :: "ColoredChar list list \<Rightarrow> jsstring" where
  "text_of grid = concat (map (\<lambda>row. row_text row @ [10]) grid)"

definition rows_of ::
  "nat \<Rightarrow> 8 word list \<Rightarrow> jsstring \<Rightarrow> ConversionSettings \<Rightarrow> jsnum \<Rightarrow> int list \<Rightarrow>
   ColoredChar list list" where
  "rows_of imgWidth data chars settings widthStep ys =
     map (\<lambda>y. map (pixel_cell imgWidth data chars settings y) (samples widthStep imgWidth)) ys"

definition grid_of ::
  "nat \<Rightarrow> nat \<Rightarrow> 8 word list \<Rightarrow> jsstring \<Rightarrow> ConversionSettings \<Rightarrow> jsnum \<Rightarrow> jsnum \<Rightarrow>
   ColoredChar list list" where
  "grid_of imgWidth imgHeight data chars settings widthStep heightStep =
     rows_of imgWidth data chars settings widthStep (samples heightStep imgHeight)"

text \<open>\<open>asciiArt.split("\\n")\<close>, as \<open>renderToCanvas\<close> takes the text apart.\<close>

fun split_on :: "nat \<Rightarrow> jsstring \<Rightarrow> jsstring list" where
  "split_on sep [] = [[]]"
| "split_on sep (c # cs) =
     (if c = sep then [] # split_on sep cs
      else (case split_on sep cs of [] \<Rightarrow> [[c]] | l # ls \<Rightarrow> (c # l) # ls))"

text \<open>\<open>getImageData(0, 0, imgWidth, imgHeight)\<close> returns four bytes for each pixel.\<close>

definition wf_env :: "Env \<Rightarrow> bool" where
  "wf_env env =
    (case imageRef env of
       None \<Rightarrow> True
     | Some img \<Rightarrow>
        (case imageData env of
           None \<Rightarrow> True
         | Some data \<Rightarrow> length data = 4 * imgWidth_of img * imgHeight_of img))"

section \<open>Concrete inputs\<close>

text \<open>A 2 by 2 image with the pixels white, black, white, black in row-major order.\<close>

definition env2x2 :: Env where
  "env2x2 = \<lparr>canvasRef = True,
     imageRef = Some \<lparr>naturalWidth = 2, naturalHeight = 2, width = 2, height = 2\<rparr>,
     context2d = True,
     imageData = Some [255, 255, 255, 255,  0, 0, 0, 255,  255, 255, 255, 255,  0, 0, 0, 255]\<rparr>"

definition settings_std :: ConversionSettings where
  "settings_std = \<lparr>resolution = 1, charSet = ''standard'', inverted = False, grayscale = True\<rparr>"

text \<open>The same image with a dark grey first pixel, and the standard settings in colour
  mode.\<close>

definition env_grey :: Env where
  "env_grey = \<lparr>canvasRef = True,
     imageRef = Some \<lparr>naturalWidth = 2, naturalHeight = 2, width = 2, height = 2\<rparr>,
     context2d = True,
     imageData = Some [60, 60, 60, 255,  0, 0, 0, 255,  255, 255, 255, 255,  0, 0, 0, 255]\<rparr>"

definition settings_colour :: ConversionSettings where
  "settings_colour = \<lparr>resolution = 1, charSet = ''standard'', inverted = False, grayscale = False\<rparr>"

definition st0 :: State where
  "st0 = \<lparr>asciiArt = [], coloredAsciiArt = [], error = None\<rparr>"

section \<open>Properties of rounding\<close>

declare ilog2.simps [simp del]

lemma round_even_of_int: "round_even (of_int n) = n"
  by (simp add: round_even_def)

lemma round_even_lower: "\<lfloor>t\<rfloor> \<le> round_even t"
  by (simp add: round_even_def Let_def)

lemma round_even_upper: "round_even t \<le> \<lfloor>t\<rfloor> + 1"
  by (simp add: round_even_def Let_def)

lemma round_even_mono:
  assumes "s \<le> t"
  shows "round_even s \<le> round_even t"
proof (cases "\<lfloor>s\<rfloor> = \<lfloor>t\<rfloor>")
  case True
  then show ?thesis using assms by (auto simp add: round_even_def Let_def)
next
  case False
  then have "\<lfloor>s\<rfloor> + 1 \<le> \<lfloor>t\<rfloor>" using floor_mono[OF assms] by linarith
  then show ?thesis using round_even_upper[of s] round_even_lower[of t] by linarith
qed

lemma ilog2_bounds: "0 < x \<Longrightarrow> 2 powi (ilog2 x) \<le> x \<and> x < 2 powi (ilog2 x + 1)"
proof (induction x rule: ilog2.induct)
  case (1 x)
  show ?case
  proof (cases "2 \<le> x")
    case True
    then have ih: "2 powi (ilog2 (x / 2)) \<le> x / 2 \<and> x / 2 < 2 powi (ilog2 (x / 2) + 1)"
      using 1 by simp
    have e: "ilog2 x = ilog2 (x / 2) + 1" using True by (subst ilog2.simps) simp
    show ?thesis using ih unfolding e by (simp add: power_int_add)
  next
    case False
    show ?thesis
    proof (cases "x < 1")
      case True
      then have ih: "2 powi (ilog2 (2 * x)) \<le> 2 * x \<and> 2 * x < 2 powi (ilog2 (2 * x) + 1)"
        using 1 False by simp
      have e: "ilog2 x = ilog2 (2 * x) - 1" using True False 1(3) by (subst ilog2.simps) simp
      show ?thesis using ih unfolding e by (simp add: power_int_add power_int_diff)
    next
      case nl: False
      have e: "ilog2 x = 0" using nl False by (subst ilog2.simps) simp
      show ?thesis using nl False unfolding e by simp
    qed
  qed
qed

lemma powi2_less_imp: "(2::real) powi a < 2 powi b \<Longrightarrow> a < b"
  by (rule ccontr) (use power_int_increasing[of b a "2::real"] in simp)

lemma ilog2_unique:
  assumes "2 powi e \<le> x" "x < 2 powi (e + 1)"
  shows "ilog2 x = e"
proof -
  have pos: "0 < x" using assms(1) zero_less_power_int[of "2::real" e] by linarith
  note b = ilog2_bounds[OF pos]
  have "(2::real) powi e < 2 powi (ilog2 x + 1)" using assms(1) b by linarith
  then have 1: "e < ilog2 x + 1" by (rule powi2_less_imp)
  have "(2::real) powi (ilog2 x) < 2 powi (e + 1)" using assms(2) b by linarith
  then have 2: "ilog2 x < e + 1" by (rule powi2_less_imp)
  show ?thesis using 1 2 by simp
qed

lemma ilog2_mono:
  assumes "0 < x" "x \<le> y"
  shows "ilog2 x \<le> ilog2 y"
proof -
  have "0 < y" using assms by simp
  note bx = ilog2_bounds[OF assms(1)] and by' = ilog2_bounds[OF \<open>0 < y\<close>]
  have "(2::real) powi (ilog2 x) < 2 powi (ilog2 y + 1)" using bx by' assms(2) by linarith
  then have "ilog2 x < ilog2 y + 1" by (rule powi2_less_imp)
  then show ?thesis by simp
qed

lemma ulp_pos: "0 < ulp x"
  by (simp add: ulp_def)

lemma rnd_0: "rnd 0 = 0"
  by (simp add: rnd_def round_even_def)

lemma rnd_nonneg: "0 \<le> x \<Longrightarrow> 0 \<le> rnd x"
proof -
  assume "0 \<le> x"
  then have "0 \<le> x / ulp x" using ulp_pos[of x] by simp
  from round_even_mono[OF this] have "0 \<le> round_even (x / ulp x)"
    using round_even_of_int[of 0] by simp
  then show ?thesis using ulp_pos[of x] by (simp add: rnd_def)
qed

text \<open>Within the spacing of \<open>x\<close>, rounding never crosses a multiple of the spacing.\<close>

lemma rnd_le_grid:
  assumes "x \<le> of_int m * ulp x"
  shows "rnd x \<le> of_int m * ulp x"
proof -
  have "x / ulp x \<le> of_int m" using assms ulp_pos[of x] by (simp add: field_simps)
  from round_even_mono[OF this] have "round_even (x / ulp x) \<le> m"
    by (simp add: round_even_of_int)
  then have "(of_int (round_even (x / ulp x)) :: real) \<le> of_int m" by simp
  then show ?thesis unfolding rnd_def using ulp_pos[of x] by simp
qed

lemma rnd_ge_grid:
  assumes "of_int m * ulp x \<le> x"
  shows "of_int m * ulp x \<le> rnd x"
proof -
  have "of_int m \<le> x / ulp x" using assms ulp_pos[of x] by (simp add: field_simps)
  from round_even_mono[OF this] have "m \<le> round_even (x / ulp x)"
    by (simp add: round_even_of_int)
  then have "(of_int m :: real) \<le> of_int (round_even (x / ulp x))" by simp
  then show ?thesis unfolding rnd_def using ulp_pos[of x] by simp
qed

lemma pow_expo_succ: "2 powi (expo x + 1) = 2 ^ 53 * ulp x"
proof -
  have e: "expo x + 1 = 53 + (expo x - 52)" by simp
  have "(2::real) powi (53 + (expo x - 52)) = 2 powi 53 * 2 powi (expo x - 52)"
    by (rule power_int_add) simp
  then show ?thesis unfolding ulp_def e by simp
qed

lemma pow_expo: "2 powi (expo x) = 2 ^ 52 * ulp x"
proof -
  have "(2::real) powi (52 + (expo x - 52)) = 2 powi 52 * 2 powi (expo x - 52)"
    by (rule power_int_add) simp
  then show ?thesis by (simp add: ulp_def)
qed

lemma less_pow_expo_succ: "\<bar>x\<bar> < 2 powi (expo x + 1)"
proof (cases "x = 0")
  case True
  then show ?thesis by simp
next
  case False
  then have "0 < \<bar>x\<bar>" by simp
  from ilog2_bounds[OF this] have "\<bar>x\<bar> < 2 powi (ilog2 \<bar>x\<bar> + 1)" by simp
  also have "\<dots> \<le> 2 powi (expo x + 1)"
    by (rule power_int_increasing) (simp_all add: expo_def)
  finally show ?thesis .
qed

lemma pow_expo_le: "x \<noteq> 0 \<Longrightarrow> - 1022 < expo x \<Longrightarrow> 2 powi (expo x) \<le> \<bar>x\<bar>"
proof -
  assume a: "- 1022 < expo x" and "x \<noteq> 0"
  then have e: "expo x = ilog2 \<bar>x\<bar>" by (simp add: expo_def max_def split: if_splits)
  have "0 < \<bar>x\<bar>" using \<open>x \<noteq> 0\<close> by simp
  from ilog2_bounds[OF this] show ?thesis unfolding e by simp
qed

lemma expo_mono: "0 < x \<Longrightarrow> x \<le> y \<Longrightarrow> expo x \<le> expo y"
proof -
  assume a: "0 < x" "x \<le> y"
  then have "0 < \<bar>x\<bar>" "\<bar>x\<bar> \<le> \<bar>y\<bar>" by simp_all
  from ilog2_mono[OF this] show ?thesis by (simp add: expo_def max_def)
qed

lemma rnd_mono_pos:
  assumes "0 < x" "x \<le> y"
  shows "rnd x \<le> rnd y"
proof (cases "expo x = expo y")
  case True
  then have u: "ulp x = ulp y" by (simp add: ulp_def)
  have "x / ulp y \<le> y / ulp y" using assms(2) ulp_pos[of y] by (simp add: divide_right_mono)
  from round_even_mono[OF this]
  have "(of_int (round_even (x / ulp y)) :: real) \<le> of_int (round_even (y / ulp y))" by simp
  then show ?thesis unfolding rnd_def u using ulp_pos[of y] by simp
next
  case False
  then have lt: "expo x < expo y" using expo_mono[OF assms] by simp
  have "x < 2 powi (expo x + 1)" using less_pow_expo_succ[of x] assms(1) by simp
  then have "x \<le> of_int (2 ^ 53) * ulp x" by (simp add: pow_expo_succ)
  from rnd_le_grid[OF this] have 1: "rnd x \<le> 2 powi (expo x + 1)" by (simp add: pow_expo_succ)
  have "- 1022 \<le> expo x" by (simp add: expo_def)
  then have "- 1022 < expo y" using lt by simp
  from pow_expo_le[OF _ this] have "2 powi (expo y) \<le> y" using assms by simp
  then have "of_int (2 ^ 52) * ulp y \<le> y" by (simp add: pow_expo)
  from rnd_ge_grid[OF this] have 2: "2 powi (expo y) \<le> rnd y" by (simp add: pow_expo)
  have "(2::real) powi (expo x + 1) \<le> 2 powi (expo y)"
    by (rule power_int_increasing) (use lt in simp_all)
  then show ?thesis using 1 2 by linarith
qed

lemma rnd_mono:
  assumes "0 \<le> x" "x \<le> y"
  shows "rnd x \<le> rnd y"
proof (cases "x = 0")
  case True
  then show ?thesis using rnd_nonneg[of y] assms by (simp add: rnd_0)
next
  case False
  then show ?thesis using rnd_mono_pos[of x y] assms by simp
qed


section \<open>The loops\<close>

declare walk.simps [simp del]

lemma row_loop_Some:
  assumes "step_pos ws"
  shows "row_loop W d c s ws y (Num x) acc =
     Some (fst acc @ row_text (map (pixel_cell W d c s y) (samples_from ws W x)),
           snd acc @ map (pixel_cell W d c s y) (samples_from ws W x))"
proof (cases ws)
  case Infinity
  show ?thesis
  proof (cases "x < int W")
    case True
    then show ?thesis unfolding Infinity
      by (subst row_loop.simps) (simp add: row_loop.simps[of _ _ _ _ _ _ Infinity] samples_from_def row_text_def append_char_def)
  next
    case False
    then show ?thesis unfolding Infinity
      by (subst row_loop.simps) (simp add: samples_from_def row_text_def)
  qed
next
  case (Num k)
  then have k: "0 < k" using assms by simp
  have "row_loop W d c s (Num k) y (Num x) acc =
     Some (fst acc @ row_text (map (pixel_cell W d c s y) (walk k (int W) x)),
           snd acc @ map (pixel_cell W d c s y) (walk k (int W) x))"
    using k
  proof (induction k "int W" x arbitrary: acc rule: walk.induct)
    case (1 k x)
    show ?case
    proof (cases "x < int W")
      case True
      have w: "walk k (int W) x = x # walk k (int W) (x + k)"
        using True 1(2) by (subst walk.simps) simp
      show ?thesis
        using True 1(2)
        by (subst row_loop.simps) (simp add: 1(1)[OF _ 1(2)] w row_text_def append_char_def)
    next
      case False
      then have w: "walk k (int W) x = []" by (subst walk.simps) simp
      show ?thesis using False by (subst row_loop.simps) (simp add: w row_text_def)
    qed
  qed
  then show ?thesis unfolding Num by (simp add: samples_from_def)
qed


lemma row_loop_diverges_aux:
  assumes "row_loop W d c s ws y x acc = Some r"
  shows "\<forall>k xi. ws = Num k \<and> k \<le> 0 \<and> x = Num xi \<and> xi < int W \<longrightarrow> False"
proof (rule row_loop.raw_induct[where P = "\<lambda>W d c s ws y x acc r.
           \<forall>k xi. ws = Num k \<and> k \<le> 0 \<and> x = Num xi \<and> xi < int W \<longrightarrow> False",
         OF _ assms], goal_cases)
  case (1 rl W d c s ws y x acc r)
  show ?case
  proof (intro allI impI, elim conjE)
    fix k xi assume a: "ws = Num k" "k \<le> 0" "x = Num xi" "xi < int W"
    from 1(2) a have "rl W d c s (Num k) y (Num (xi + k))
        (append_char (fst acc) (char (pixel_cell W d c s y xi)), snd acc @ [pixel_cell W d c s y xi]) = Some r"
      by simp
    from 1(1)[OF this] a show False by auto
  qed
qed

lemma row_loop_None:
  assumes "\<not> step_pos ws" "x < int W"
  shows "row_loop W d c s ws y (Num x) acc = None"
proof (cases "row_loop W d c s ws y (Num x) acc")
  case None
  then show ?thesis .
next
  case (Some r)
  obtain k where "ws = Num k" "k \<le> 0" using assms(1) by (cases ws) auto
  with row_loop_diverges_aux[OF Some] assms(2) show ?thesis by blast
qed

lemma col_loop_diverges_aux:
  assumes "col_loop W H d c s ws hs y acc = Some r"
  shows "\<forall>k yi. hs = Num k \<and> k \<le> 0 \<and> y = Num yi \<and> yi < int H \<longrightarrow> False"
proof (rule col_loop.raw_induct[where P = "\<lambda>W H d c s ws hs y acc r.
           \<forall>k yi. hs = Num k \<and> k \<le> 0 \<and> y = Num yi \<and> yi < int H \<longrightarrow> False",
         OF _ assms], goal_cases)
  case (1 cl W H d c s ws hs y acc r)
  show ?case
  proof (intro allI impI, elim conjE)
    fix k yi assume a: "hs = Num k" "k \<le> 0" "y = Num yi" "yi < int H"
    from 1(2) a obtain row where "cl W H d c s ws (Num k) (Num (yi + k))
        (fst row @ [10], snd acc @ [snd row]) = Some r"
      by (auto simp add: bind_eq_Some_conv)
    from 1(1)[OF this] a show False by auto
  qed
qed

lemma col_loop_None_height:
  assumes "\<not> step_pos hs" "y < int H"
  shows "col_loop W H d c s ws hs (Num y) acc = None"
proof (cases "col_loop W H d c s ws hs (Num y) acc")
  case None
  then show ?thesis .
next
  case (Some r)
  obtain k where "hs = Num k" "k \<le> 0" using assms(1) by (cases hs) auto
  with col_loop_diverges_aux[OF Some] assms(2) show ?thesis by blast
qed

lemma col_loop_None_width:
  assumes "\<not> step_pos ws" "0 < W" "y < int H"
  shows "col_loop W H d c s ws hs (Num y) acc = None"
  using assms by (subst col_loop.simps) (simp add: row_loop_None)

lemma col_loop_Some:
  assumes "step_pos ws" "step_pos hs"
  shows "col_loop W H d c s ws hs (Num y) acc =
     Some (fst acc @ text_of (rows_of W d c s ws (samples_from hs H y)),
           snd acc @ rows_of W d c s ws (samples_from hs H y))"
proof (cases hs)
  case Infinity
  show ?thesis
  proof (cases "y < int H")
    case True
    then show ?thesis unfolding Infinity
      by (subst col_loop.simps)
         (simp add: col_loop.simps[of _ _ _ _ _ _ _ Infinity] row_loop_Some[OF assms(1)]
            samples_from_def samples_def text_of_def rows_of_def)
  next
    case False
    then show ?thesis unfolding Infinity
      by (subst col_loop.simps) (simp add: samples_from_def text_of_def rows_of_def)
  qed
next
  case (Num k)
  then have k: "0 < k" using assms by simp
  have "col_loop W H d c s ws (Num k) (Num y) acc =
     Some (fst acc @ text_of (rows_of W d c s ws (walk k (int H) y)),
           snd acc @ rows_of W d c s ws (walk k (int H) y))"
    using k
  proof (induction k "int H" y arbitrary: acc rule: walk.induct)
    case (1 k y)
    show ?case
    proof (cases "y < int H")
      case True
      have w: "walk k (int H) y = y # walk k (int H) (y + k)"
        using True 1(2) by (subst walk.simps) simp
      show ?thesis
        using True 1(2)
        by (subst col_loop.simps)
           (simp add: 1(1)[OF _ 1(2)] w row_loop_Some[OF assms(1)] text_of_def rows_of_def samples_def)
    next
      case False
      then have w: "walk k (int H) y = []" by (subst walk.simps) simp
      show ?thesis using False by (subst col_loop.simps) (simp add: w text_of_def rows_of_def)
    qed
  qed
  then show ?thesis unfolding Num by (simp add: samples_from_def)
qed


section \<open>The strides\<close>

lemmas float_defs = rnd_def ulp_def expo_def round_even_def ilog2.simps

lemma rnd_1: "rnd 1 = 1" by (simp add: float_defs)
lemma rnd_half: "rnd (1/2) = 1/2" by (simp add: float_defs)
lemma rnd_2: "rnd 2 = 2" by (simp add: float_defs)
lemma rnd_3half: "rnd (3/2) = 3/2" by (simp add: float_defs)

lemma rnd_le_pow: "0 \<le> x \<Longrightarrow> rnd x \<le> 2 powi (expo x + 1)"
proof -
  assume "0 \<le> x"
  then have "x < 2 powi (expo x + 1)" using less_pow_expo_succ[of x] by simp
  then have "x \<le> of_int (2 ^ 53) * ulp x" by (simp add: pow_expo_succ)
  from rnd_le_grid[OF this] show ?thesis by (simp add: pow_expo_succ)
qed

lemma rnd_le_double:
  assumes "1 \<le> x"
  shows "rnd x \<le> 2 * x"
proof -
  have "ilog2 1 \<le> ilog2 \<bar>x\<bar>" using assms by (intro ilog2_mono) simp_all
  moreover have "ilog2 1 = 0" by (simp add: ilog2.simps)
  ultimately have e: "- 1022 < expo x" by (simp add: expo_def)
  have "x \<noteq> 0" using assms by simp
  from pow_expo_le[OF this e] have p: "2 powi (expo x) \<le> x" using assms by simp
  have "(2::real) powi (expo x + 1) = 2 powi (expo x) * 2"
    by (simp add: power_int_add)
  then show ?thesis using rnd_le_pow[of x] p assms by linarith
qed

lemma sample_size_nonneg: "0 \<le> res \<Longrightarrow> 0 \<le> sample_size n res"
  by (simp add: sample_size_def fmul_def rnd_nonneg)

lemma sample_size_zero_iff:
  "0 \<le> res \<Longrightarrow> sample_size n res = 0 \<longleftrightarrow> fmul (real n) res < 1"
  using rnd_nonneg[of "real n * res"] by (auto simp add: sample_size_def fmul_def floor_eq_iff)

lemma sample_size_le:
  assumes "0 \<le> res" "res \<le> 1" "0 < n"
  shows "real_of_int (sample_size n res) \<le> 2 * real n"
proof -
  have "real n * res \<le> real n" using assms by (simp add: mult_left_le)
  then have "rnd (real n * res) \<le> rnd (real n)" using assms by (intro rnd_mono) simp_all
  also have "\<dots> \<le> 2 * real n" using assms by (intro rnd_le_double) simp
  finally show ?thesis unfolding sample_size_def fmul_def
    using of_int_floor_le[of "rnd (real n * res)"] by linarith
qed

lemma quotient_ge_half:
  assumes "0 \<le> res" "res \<le> 1" "0 < n" "sample_size n res \<noteq> 0"
  shows "1/2 \<le> fdiv (real n) (of_int (sample_size n res))"
proof -
  let ?w = "real_of_int (sample_size n res)"
  have w: "0 < ?w" using sample_size_nonneg[OF assms(1), of n] assms(4) by simp
  have "1/2 \<le> real n / ?w" using sample_size_le[OF assms(1-3)] w by (simp add: field_simps)
  then have "rnd (1/2) \<le> rnd (real n / ?w)" by (intro rnd_mono) simp_all
  then show ?thesis by (simp add: fdiv_def rnd_half)
qed

lemma widthStep_pos:
  assumes "0 < res" "res \<le> 1" "0 < n"
  shows "step_pos (widthStep_of n (sample_size n res))"
proof (cases "sample_size n res = 0")
  case True
  then show ?thesis by (simp add: widthStep_of_def)
next
  case False
  have "0 \<le> res" using assms by simp
  from quotient_ge_half[OF this assms(2,3) False]
  have "0 < fdiv (real n) (of_int (sample_size n res))" by linarith
  then show ?thesis using False by (simp add: widthStep_of_def)
qed

lemma heightStep_pos:
  assumes "0 < res" "res \<le> 1" "0 < n"
  shows "step_pos (heightStep_of n (sample_size n res))"
proof (cases "sample_size n res = 0")
  case True
  then show ?thesis by (simp add: heightStep_of_def)
next
  case False
  have "0 \<le> res" using assms by simp
  from quotient_ge_half[OF this assms(2,3) False]
  have "1 \<le> fdiv (real n) (of_int (sample_size n res)) / (1/2)" by simp
  then have "rnd 1 \<le> rnd (fdiv (real n) (of_int (sample_size n res)) / (1/2))"
    by (intro rnd_mono) simp_all
  then have "0 < fdiv (fdiv (real n) (of_int (sample_size n res))) (1/2)"
    unfolding fdiv_def[of _ "1/2"] by (simp add: rnd_1)
  then show ?thesis using False by (simp add: heightStep_of_def)
qed


section \<open>Brightness, ramp index and colour factor\<close>

lemma fmul_mono: "0 \<le> a \<Longrightarrow> a \<le> a' \<Longrightarrow> 0 \<le> b \<Longrightarrow> b \<le> b' \<Longrightarrow> fmul a b \<le> fmul a' b'"
  unfolding fmul_def by (intro rnd_mono mult_mono) simp_all

lemma fadd_mono: "0 \<le> a \<Longrightarrow> a \<le> a' \<Longrightarrow> 0 \<le> b \<Longrightarrow> b \<le> b' \<Longrightarrow> fadd a b \<le> fadd a' b'"
  unfolding fadd_def by (intro rnd_mono add_mono) simp_all

lemma fdiv_mono: "0 \<le> a \<Longrightarrow> a \<le> a' \<Longrightarrow> 0 < c \<Longrightarrow> fdiv a c \<le> fdiv a' c"
  unfolding fdiv_def by (intro rnd_mono divide_right_mono) simp_all

lemma fmul_nonneg: "0 \<le> a \<Longrightarrow> 0 \<le> b \<Longrightarrow> 0 \<le> fmul a b"
  unfolding fmul_def by (intro rnd_nonneg) simp

lemma fadd_nonneg: "0 \<le> a \<Longrightarrow> 0 \<le> b \<Longrightarrow> 0 \<le> fadd a b"
  unfolding fadd_def by (intro rnd_nonneg) simp

lemma fdiv_nonneg: "0 \<le> a \<Longrightarrow> 0 \<le> c \<Longrightarrow> 0 \<le> fdiv a c"
  unfolding fdiv_def by (intro rnd_nonneg) simp

lemma fsqrt_nonneg: "0 \<le> a \<Longrightarrow> 0 \<le> fsqrt a"
  unfolding fsqrt_def by (intro rnd_nonneg) simp

lemma fsqrt_le_1: "0 \<le> a \<Longrightarrow> a \<le> 1 \<Longrightarrow> fsqrt a \<le> 1"
proof -
  assume "0 \<le> a" "a \<le> 1"
  then have "sqrt a \<le> 1" by simp
  then have "rnd (sqrt a) \<le> rnd 1" using \<open>0 \<le> a\<close> by (intro rnd_mono) simp_all
  then show ?thesis by (simp add: fsqrt_def rnd_1)
qed

text \<open>The three luma weights as doubles.\<close>

lemma c299: "rnd (299/1000) = 5386305154335113 / 2 ^ 54" by (simp add: float_defs)
lemma c587: "rnd (587/1000) = 2643612981266481 / 2 ^ 52" by (simp add: float_defs)
lemma c114: "rnd (114/1000) = 8214565720323785 / 2 ^ 56" by (simp add: float_defs)

lemma gray_white:
  "fdiv (fadd (fadd (fmul 255 (rnd (299/1000))) (fmul 255 (rnd (587/1000))))
              (fmul 255 (rnd (114/1000)))) 255 = 1"
  by (simp add: c299 c587 c114 fmul_def fadd_def fdiv_def float_defs)

lemma gray_black:
  "fdiv (fadd (fadd (fmul 0 (rnd (299/1000))) (fmul 0 (rnd (587/1000))))
              (fmul 0 (rnd (114/1000)))) 255 = 0"
  by (simp add: fmul_def fadd_def fdiv_def rnd_0)

lemma weights_sum_le_1:
  "fadd (fadd (rnd (299/1000)) (rnd (587/1000))) (rnd (114/1000)) \<le> 1"
  by (simp add: c299 c587 c114 fadd_def float_defs)

lemma weights_fixed:
  "rnd (rnd (299/1000)) = rnd (299/1000)"
  "rnd (rnd (587/1000)) = rnd (587/1000)"
  "rnd (rnd (114/1000)) = rnd (114/1000)"
  by (simp_all add: c299 c587 c114) (simp_all add: float_defs)


lemma weight_nonneg: "0 \<le> rnd (299/1000)" "0 \<le> rnd (587/1000)" "0 \<le> rnd (114/1000)"
  by (simp_all add: rnd_nonneg)

lemma gray_le_1:
  assumes "r \<le> 255" "g \<le> 255" "b \<le> 255"
  shows "fdiv (fadd (fadd (fmul (real r) (rnd (299/1000))) (fmul (real g) (rnd (587/1000))))
                    (fmul (real b) (rnd (114/1000)))) 255 \<le> 1"
proof -
  have "fdiv (fadd (fadd (fmul (real r) (rnd (299/1000))) (fmul (real g) (rnd (587/1000))))
                    (fmul (real b) (rnd (114/1000)))) 255
     \<le> fdiv (fadd (fadd (fmul 255 (rnd (299/1000))) (fmul 255 (rnd (587/1000))))
              (fmul 255 (rnd (114/1000)))) 255"
    using assms
    by (intro fdiv_mono fadd_mono fmul_mono fadd_nonneg fmul_nonneg weight_nonneg) simp_all
  then show ?thesis by (simp only: gray_white)
qed

lemma gray_nonneg:
  "0 \<le> fdiv (fadd (fadd (fmul (real r) (rnd (299/1000))) (fmul (real g) (rnd (587/1000))))
                    (fmul (real b) (rnd (114/1000)))) 255"
  by (intro fdiv_nonneg fadd_nonneg fmul_nonneg weight_nonneg) simp_all

lemma channel_unit:
  assumes "r \<le> 255"
  shows "0 \<le> fdiv (real r) 255" "fdiv (real r) 255 \<le> 1"
proof -
  show "0 \<le> fdiv (real r) 255" by (intro fdiv_nonneg) simp_all
  have "real r / 255 \<le> 1" using assms by simp
  then have "rnd (real r / 255) \<le> rnd 1" by (intro rnd_mono) simp_all
  then show "fdiv (real r) 255 \<le> 1" by (simp add: fdiv_def rnd_1)
qed

lemma term_le_weight:
  assumes "0 \<le> w" "rnd w = w" "0 \<le> q" "q \<le> 1"
  shows "fmul (fmul w q) q \<le> w" "0 \<le> fmul (fmul w q) q"
proof -
  have "fmul w q \<le> fmul w 1" using assms by (intro fmul_mono) simp_all
  then have a: "fmul w q \<le> w" using assms(2) by (simp add: fmul_def)
  have n: "0 \<le> fmul w q" using assms by (intro fmul_nonneg) simp_all
  have "fmul (fmul w q) q \<le> fmul w 1" using assms a n by (intro fmul_mono) simp_all
  then show "fmul (fmul w q) q \<le> w" using assms(2) by (simp add: fmul_def)
  show "0 \<le> fmul (fmul w q) q" using assms n by (intro fmul_nonneg) simp_all
qed

lemma color_sum_range:
  assumes "r \<le> 255" "g \<le> 255" "b \<le> 255"
  shows "0 \<le> fadd (fadd (fmul (fmul (rnd (299/1000)) (fdiv (real r) 255)) (fdiv (real r) 255))
                            (fmul (fmul (rnd (587/1000)) (fdiv (real g) 255)) (fdiv (real g) 255)))
                      (fmul (fmul (rnd (114/1000)) (fdiv (real b) 255)) (fdiv (real b) 255))"
    and "fadd (fadd (fmul (fmul (rnd (299/1000)) (fdiv (real r) 255)) (fdiv (real r) 255))
                            (fmul (fmul (rnd (587/1000)) (fdiv (real g) 255)) (fdiv (real g) 255)))
                      (fmul (fmul (rnd (114/1000)) (fdiv (real b) 255)) (fdiv (real b) 255)) \<le> 1"
proof -
  note tr = term_le_weight[OF weight_nonneg(1) weights_fixed(1) channel_unit[OF assms(1)]]
  note tg = term_le_weight[OF weight_nonneg(2) weights_fixed(2) channel_unit[OF assms(2)]]
  note tb = term_le_weight[OF weight_nonneg(3) weights_fixed(3) channel_unit[OF assms(3)]]
  show "0 \<le> fadd (fadd (fmul (fmul (rnd (299/1000)) (fdiv (real r) 255)) (fdiv (real r) 255))
                            (fmul (fmul (rnd (587/1000)) (fdiv (real g) 255)) (fdiv (real g) 255)))
                      (fmul (fmul (rnd (114/1000)) (fdiv (real b) 255)) (fdiv (real b) 255))"
    by (intro fadd_nonneg tr tg tb)
  have "fadd (fadd (fmul (fmul (rnd (299/1000)) (fdiv (real r) 255)) (fdiv (real r) 255))
                            (fmul (fmul (rnd (587/1000)) (fdiv (real g) 255)) (fdiv (real g) 255)))
                      (fmul (fmul (rnd (114/1000)) (fdiv (real b) 255)) (fdiv (real b) 255))
     \<le> fadd (fadd (rnd (299/1000)) (rnd (587/1000))) (rnd (114/1000))"
    by (intro fadd_mono fadd_nonneg tr tg tb)
  then show "fadd (fadd (fmul (fmul (rnd (299/1000)) (fdiv (real r) 255)) (fdiv (real r) 255))
                            (fmul (fmul (rnd (587/1000)) (fdiv (real g) 255)) (fdiv (real g) 255)))
                      (fmul (fmul (rnd (114/1000)) (fdiv (real b) 255)) (fdiv (real b) 255)) \<le> 1"
    using weights_sum_le_1 by linarith
qed

lemma fsub_unit: "0 \<le> x \<Longrightarrow> x \<le> 1 \<Longrightarrow> 0 \<le> fsub 1 x \<and> fsub 1 x \<le> 1"
proof -
  assume a: "0 \<le> x" "x \<le> 1"
  have "rnd (1 - x) \<le> rnd 1" using a by (intro rnd_mono) simp_all
  moreover have "0 \<le> rnd (1 - x)" using a by (intro rnd_nonneg) simp
  ultimately show ?thesis by (simp add: fsub_def rnd_1)
qed

lemma brightness_range:
  assumes "r \<le> 255" "g \<le> 255" "b \<le> 255"
  shows "0 \<le> brightness settings r g b \<and> brightness settings r g b \<le> 1"
proof -
  define br where "br =
       (if grayscale settings then
          fdiv (fadd (fadd (fmul (real r) (rnd (299/1000))) (fmul (real g) (rnd (587/1000))))
                     (fmul (real b) (rnd (114/1000)))) 255
        else
          fsqrt (fadd (fadd (fmul (fmul (rnd (299/1000)) (fdiv (real r) 255)) (fdiv (real r) 255))
                            (fmul (fmul (rnd (587/1000)) (fdiv (real g) 255)) (fdiv (real g) 255)))
                      (fmul (fmul (rnd (114/1000)) (fdiv (real b) 255)) (fdiv (real b) 255))))"
  have br: "0 \<le> br \<and> br \<le> 1"
    unfolding br_def
    using gray_le_1[OF assms] gray_nonneg[of r g b] color_sum_range[OF assms]
    by (simp add: fsqrt_nonneg fsqrt_le_1)
  have "brightness settings r g b = (if inverted settings then fsub 1 br else br)"
    by (simp add: brightness_def br_def Let_def)
  then show ?thesis using br fsub_unit[of br] by simp
qed

lemma unat_byte: "unat (w :: 8 word) \<le> 255"
  using unsigned_less[of w, where 'a = nat] by simp

text \<open>Facts about the six ramps.\<close>

lemma rnd_ramp_last:
  "rnd 9 = 9" "rnd 14 = 14" "rnd 4 = 4" "rnd 3 = 3" "rnd 69 = 69" "rnd 10 = 10"
  by (simp_all add: float_defs)

lemma ramp_facts:
  assumes "charSets key = Some chars"
  shows "10 \<notin> set chars" and "2 \<le> length chars"
    and "rnd (of_int (int (length chars) - 1)) = of_int (int (length chars) - 1)"
proof -
  consider "chars = ascii '' .:-=+*#%@''" | "chars = ascii '' .,:;i1tfLCG08@''"
    | "chars = [32, 9617, 9618, 9619, 9608]" | "chars = [32, 46, 58, 9608]"
    | "length chars = 70 \<and> 10 \<notin> set chars" | "chars = ascii '' .:;+=xX$&@''"
    using assms unfolding charSets_def by (auto split: if_splits)
  then have "(length chars = 10 \<or> length chars = 15 \<or> length chars = 5 \<or> length chars = 4
      \<or> length chars = 70 \<or> length chars = 11) \<and> 10 \<notin> set chars"
    by cases (simp_all add: ascii_def)
  then show "10 \<notin> set chars" and "2 \<le> length chars"
    and "rnd (of_int (int (length chars) - 1)) = of_int (int (length chars) - 1)"
    by (auto simp add: rnd_ramp_last)
qed

lemma charIndex_range:
  assumes "charSets key = Some chars" "0 \<le> br" "br \<le> 1"
  shows "0 \<le> charIndex chars br" "charIndex chars br \<le> int (length chars) - 1"
proof -
  let ?m = "real_of_int (int (length chars) - 1)"
  have m: "0 \<le> ?m" using ramp_facts(2)[OF assms(1)] by simp
  have "0 \<le> fmul br ?m" using assms m by (intro fmul_nonneg)
  then show "0 \<le> charIndex chars br" by (simp add: charIndex_def)
  have "br * ?m \<le> ?m" using assms m by (simp add: mult_left_le_one_le)
  then have "rnd (br * ?m) \<le> rnd ?m" using assms m by (intro rnd_mono) simp_all
  then have "fmul br ?m \<le> ?m" unfolding fmul_def ramp_facts(3)[OF assms(1)] .
  then have "\<lfloor>fmul br ?m\<rfloor> \<le> \<lfloor>?m\<rfloor>" by (rule floor_mono)
  then show "charIndex chars br \<le> int (length chars) - 1"
    unfolding charIndex_def by (simp only: floor_of_int)
qed

lemma charIndex_ends:
  assumes "charSets key = Some chars"
  shows "charIndex chars 0 = 0" "charIndex chars 1 = int (length chars) - 1"
proof -
  show "charIndex chars 0 = 0" by (simp add: charIndex_def fmul_def rnd_0)
  have "charIndex chars 1 = \<lfloor>rnd (of_int (int (length chars) - 1))\<rfloor>"
    by (simp add: charIndex_def fmul_def)
  also have "\<dots> = int (length chars) - 1"
    unfolding ramp_facts(3)[OF assms] by (simp only: floor_of_int)
  finally show "charIndex chars 1 = int (length chars) - 1" .
qed

lemma char_at_in_range:
  "0 \<le> i \<Longrightarrow> i \<le> int (length chars) - 1 \<Longrightarrow> char_at chars i = Some (chars ! nat i)"
  by (simp add: char_at_def)

lemma brightnessFactor_range:
  assumes "charSets key = Some chars" "0 \<le> ci" "ci \<le> int (length chars) - 1"
  shows "1/2 \<le> brightnessFactor chars ci" "brightnessFactor chars ci \<le> 2"
proof -
  let ?m = "real_of_int (int (length chars) - 1)"
  let ?q = "fdiv (of_int ci) ?m"
  have m: "0 < ?m" using ramp_facts(2)[OF assms(1)] by simp
  have q0: "0 \<le> ?q" using assms m by (intro fdiv_nonneg) simp_all
  have "real_of_int ci / ?m \<le> 1" using assms m by simp
  then have "rnd (real_of_int ci / ?m) \<le> rnd 1" using assms m by (intro rnd_mono) simp_all
  then have q1: "?q \<le> 1" by (simp add: fdiv_def rnd_1)
  have p0: "0 \<le> fmul ?q (3/2)" using q0 by (intro fmul_nonneg) simp_all
  have "fmul ?q (3/2) \<le> fmul 1 (3/2)" using q0 q1 by (intro fmul_mono) simp_all
  then have p1: "fmul ?q (3/2) \<le> 3/2" by (simp add: fmul_def rnd_3half)
  have "rnd (1/2) \<le> rnd (fmul ?q (3/2) + 1/2)" using p0 by (intro rnd_mono) simp_all
  then show "1/2 \<le> brightnessFactor chars ci"
    by (simp add: brightnessFactor_def fadd_def rnd_half)
  have "rnd (fmul ?q (3/2) + 1/2) \<le> rnd 2" using p0 p1 by (intro rnd_mono) simp_all
  then show "brightnessFactor chars ci \<le> 2"
    by (simp add: brightnessFactor_def fadd_def rnd_2)
qed


section \<open>Sampled coordinates and the result of the conversion\<close>

lemma walk_bounds: "0 \<le> i \<Longrightarrow> x \<in> set (walk k n i) \<Longrightarrow> 0 \<le> x \<and> x < n"
proof (induction k n i rule: walk.induct)
  case (1 k n i)
  show ?case
  proof (cases "0 < k \<and> i < n")
    case True
    then have w: "walk k n i = i # walk k n (i + k)" by (subst walk.simps) simp
    from 1(3) have "x = i \<or> x \<in> set (walk k n (i + k))" unfolding w by simp
    then show ?thesis
    proof
      assume "x = i"
      then show ?thesis using True 1(2) by simp
    next
      assume "x \<in> set (walk k n (i + k))"
      then show ?thesis using 1(1)[OF True] True 1(2) by simp
    qed
  next
    case False
    then have "walk k n i = []" by (subst walk.simps) auto
    then show ?thesis using 1(3) by simp
  qed
qed

lemma samples_bounds: "x \<in> set (samples step n) \<Longrightarrow> 0 \<le> x \<and> x < int n"
  unfolding samples_def samples_from_def
  by (cases step) (auto dest: walk_bounds[rotated] split: if_splits)

lemma walk_one: "0 < k \<Longrightarrow> walk k 1 0 = [0]"
  by (subst walk.simps, simp, subst walk.simps, simp)

lemma samples_one: "step_pos step \<Longrightarrow> samples step (Suc 0) = [0]"
  unfolding samples_def samples_from_def by (cases step) (simp_all add: walk_one)

lemma samples_Infinity: "0 < n \<Longrightarrow> samples Infinity n = [0]"
  by (simp add: samples_def samples_from_def)

lemma pos_bounds:
  assumes "0 \<le> x" "x < int W" "0 \<le> y" "y < int H"
  shows "0 \<le> (y * int W + x) * 4" "(y * int W + x) * 4 + 3 < 4 * int W * int H"
proof -
  show "0 \<le> (y * int W + x) * 4" using assms by simp
  have "y + 1 \<le> int H" using assms by simp
  then have "(y + 1) * int W \<le> int H * int W" by (intro mult_right_mono) simp_all
  then have "y * int W + int W \<le> int W * int H" by (simp add: algebra_simps)
  then show "(y * int W + x) * 4 + 3 < 4 * int W * int H" using assms by simp
qed

lemma data_at_in_bounds:
  assumes "0 \<le> p" "p < int (length data)"
  shows "data_at data p = Some (unat (data ! nat p))"
  using assms by (simp add: data_at_def)

lemma pixel_reads:
  assumes "0 \<le> x" "x < int W" "0 \<le> y" "y < int H" "length data = 4 * W * H"
  shows "data_at data ((y * int W + x) * 4) = Some (unat (data ! nat ((y * int W + x) * 4)))"
    and "data_at data ((y * int W + x) * 4 + 1) = Some (unat (data ! nat ((y * int W + x) * 4 + 1)))"
    and "data_at data ((y * int W + x) * 4 + 2) = Some (unat (data ! nat ((y * int W + x) * 4 + 2)))"
proof -
  note b = pos_bounds[OF assms(1-4)]
  have l: "int (length data) = 4 * int W * int H" using assms(5) by simp
  show "data_at data ((y * int W + x) * 4) = Some (unat (data ! nat ((y * int W + x) * 4)))"
    by (rule data_at_in_bounds) (use b l in linarith)+
  show "data_at data ((y * int W + x) * 4 + 1) = Some (unat (data ! nat ((y * int W + x) * 4 + 1)))"
    by (rule data_at_in_bounds) (use b l in linarith)+
  show "data_at data ((y * int W + x) * 4 + 2) = Some (unat (data ! nat ((y * int W + x) * 4 + 2)))"
    by (rule data_at_in_bounds) (use b l in linarith)+
qed

text \<open>The cell of a pixel inside the buffer.\<close>

lemma pixel_cell_in_bounds:
  fixes settings :: ConversionSettings
  assumes "0 \<le> x" "x < int W" "0 \<le> y" "y < int H" "length data = 4 * W * H"
    and "charSets key = Some chars"
  defines "r \<equiv> unat (data ! nat ((y * int W + x) * 4))"
    and "g \<equiv> unat (data ! nat ((y * int W + x) * 4 + 1))"
    and "b \<equiv> unat (data ! nat ((y * int W + x) * 4 + 2))"
  defines "ci \<equiv> charIndex chars (brightness settings r g b)"
  shows "pixel_cell W data chars settings y x =
      \<lparr>char = Some (chars ! nat ci),
       color = (if \<not> grayscale settings
                then adjustColorBrightness r g b (brightnessFactor chars ci) else White)\<rparr>"
    and "0 \<le> ci" and "ci \<le> int (length chars) - 1"
proof -
  have br: "0 \<le> brightness settings r g b \<and> brightness settings r g b \<le> 1"
    unfolding r_def g_def b_def by (intro brightness_range unat_byte)
  show ci: "0 \<le> ci" "ci \<le> int (length chars) - 1"
    unfolding ci_def using charIndex_range[OF assms(6)] br by simp_all
  show "pixel_cell W data chars settings y x =
      \<lparr>char = Some (chars ! nat ci),
       color = (if \<not> grayscale settings
                then adjustColorBrightness r g b (brightnessFactor chars ci) else White)\<rparr>"
    unfolding pixel_cell_def Let_def pixel_reads[OF assms(1-5)]
    using char_at_in_range[OF ci] by (simp add: r_def g_def b_def ci_def)
qed

lemma col_loop_start:
  assumes "0 < W" "0 < H"
  shows "col_loop W H d c s ws hs (Num 0) acc =
     (if step_pos ws \<and> step_pos hs
      then Some (fst acc @ text_of (grid_of W H d c s ws hs), snd acc @ grid_of W H d c s ws hs)
      else None)"
proof (cases "step_pos ws")
  case False
  then show ?thesis using assms by (simp add: col_loop_None_width)
next
  case ws: True
  show ?thesis
  proof (cases "step_pos hs")
    case False
    then show ?thesis using assms by (simp add: col_loop_None_height)
  next
    case True
    then show ?thesis using ws
      by (simp add: col_loop_Some grid_of_def samples_def)
  qed
qed

lemma convert_try_run:
  assumes "canvasRef env" "imageRef env = Some img" "0 < imgWidth_of img" "0 < imgHeight_of img"
    and "context2d env" "imageData env = Some d" "charSets (charSet s) = Some chars"
  defines "ws \<equiv> widthStep_of (imgWidth_of img) (sample_size (imgWidth_of img) (resolution s))"
    and "hs \<equiv> heightStep_of (imgHeight_of img) (sample_size (imgHeight_of img) (resolution s))"
  shows "convert_try env s =
     (if step_pos ws \<and> step_pos hs
      then Some (Inr (text_of (grid_of (imgWidth_of img) (imgHeight_of img) d chars s ws hs),
                      grid_of (imgWidth_of img) (imgHeight_of img) d chars s ws hs))
      else None)"
  using assms(1-7)
  by (simp add: convert_try_def Let_def col_loop_start ws_def hs_def)

lemma convert_success:
  assumes "convertToAscii env s st = Some st'" "error st' = None"
  obtains img d chars where "canvasRef env" "imageRef env = Some img"
    "0 < imgWidth_of img" "0 < imgHeight_of img"
    "context2d env" "imageData env = Some d" "charSets (charSet s) = Some chars"
    "step_pos (widthStep_of (imgWidth_of img) (sample_size (imgWidth_of img) (resolution s)))"
    "step_pos (heightStep_of (imgHeight_of img) (sample_size (imgHeight_of img) (resolution s)))"
    "coloredAsciiArt st' = grid_of (imgWidth_of img) (imgHeight_of img) d chars s
        (widthStep_of (imgWidth_of img) (sample_size (imgWidth_of img) (resolution s)))
        (heightStep_of (imgHeight_of img) (sample_size (imgHeight_of img) (resolution s)))"
    "asciiArt st' = text_of (coloredAsciiArt st')"
proof -
  from assms obtain out where t: "convert_try env s = Some (Inr out)"
    and st': "st' = st\<lparr>asciiArt := fst out, coloredAsciiArt := snd out, error := None\<rparr>"
    by (auto simp add: convertToAscii_def split: option.splits sum.splits)
  from t obtain img where img: "imageRef env = Some img" and cv: "canvasRef env"
    by (auto simp add: convert_try_def split: option.splits if_splits)
  from t img cv have dims: "0 < imgWidth_of img" "0 < imgHeight_of img" and ctx: "context2d env"
    by (auto simp add: convert_try_def Let_def split: option.splits if_splits)
  from t img cv dims ctx obtain d chars where d: "imageData env = Some d"
    and ch: "charSets (charSet s) = Some chars"
    by (auto simp add: convert_try_def Let_def split: option.splits if_splits)
  note run = convert_try_run[OF cv img dims ctx d ch]
  from t run have sp:
    "step_pos (widthStep_of (imgWidth_of img) (sample_size (imgWidth_of img) (resolution s)))"
    "step_pos (heightStep_of (imgHeight_of img) (sample_size (imgHeight_of img) (resolution s)))"
    by (auto split: if_splits)
  from t run sp have out: "out = (text_of (grid_of (imgWidth_of img) (imgHeight_of img) d chars s
        (widthStep_of (imgWidth_of img) (sample_size (imgWidth_of img) (resolution s)))
        (heightStep_of (imgHeight_of img) (sample_size (imgHeight_of img) (resolution s)))),
      grid_of (imgWidth_of img) (imgHeight_of img) d chars s
        (widthStep_of (imgWidth_of img) (sample_size (imgWidth_of img) (resolution s)))
        (heightStep_of (imgHeight_of img) (sample_size (imgHeight_of img) (resolution s))))"
    by simp
  show ?thesis
    by (rule that[OF cv img dims ctx d ch sp]) (simp_all add: st' out)
qed


text \<open>With a resolution in \<open>(0, 1]\<close> the conversion always returns.\<close>

lemma convertToAscii_returns:
  assumes "0 < resolution settings" "resolution settings \<le> 1"
  shows "\<exists>st'. convertToAscii env settings st = Some st'"
proof -
  have "\<exists>out. convert_try env settings = Some out"
  proof (cases "\<exists>img d chars. canvasRef env \<and> imageRef env = Some img \<and> 0 < imgWidth_of img
      \<and> 0 < imgHeight_of img \<and> context2d env \<and> imageData env = Some d
      \<and> charSets (charSet settings) = Some chars")
    case True
    then obtain img d chars where h: "canvasRef env" "imageRef env = Some img"
      "0 < imgWidth_of img" "0 < imgHeight_of img" "context2d env" "imageData env = Some d"
      "charSets (charSet settings) = Some chars" by blast
    show ?thesis
      unfolding convert_try_run[OF h]
      using widthStep_pos[OF assms h(3)] heightStep_pos[OF assms h(4)] by simp
  next
    case False
    then show ?thesis
      by (auto simp add: convert_try_def Let_def split: option.splits)
  qed
  then show ?thesis
    by (auto simp add: convertToAscii_def split: sum.splits)
qed

section \<open>Determinism\<close>

text \<open>
  C8: the conversion is deterministic.  Two runs on the same image and settings, started
  from any two component states, either both do not return or both return, with the same
  text, the same grid and the same error.
\<close>

theorem convertToAscii_deterministic:
  "map_option (\<lambda>st. (asciiArt st, coloredAsciiArt st, error st)) (convertToAscii env settings st1) =
   map_option (\<lambda>st. (asciiArt st, coloredAsciiArt st, error st)) (convertToAscii env settings st2)"
  by (simp add: convertToAscii_def split: option.splits sum.splits)


section \<open>Ramp coverage\<close>

text \<open>
  C3: for every built-in ramp and every pixel, in grayscale and in colour mode, inverted
  or not, the brightness lies in \<open>[0, 1]\<close> and the ramp index
  \<open>floor (brightness * (length - 1))\<close> lies in \<open>[0, length - 1]\<close>; brightness 0 gives
  index 0, brightness 1 gives index \<open>length - 1\<close>, and the lookup \<open>chars[charIndex]\<close>
  is inside the ramp.
\<close>

theorem ramp_index_in_bounds:
  fixes r g b :: "8 word"
  assumes "charSets key = Some chars"
  shows "(let br = brightness settings (unat r) (unat g) (unat b) in
         0 \<le> br \<and> br \<le> 1
       \<and> 0 \<le> charIndex chars br \<and> charIndex chars br \<le> int (length chars) - 1
       \<and> charIndex chars 0 = 0 \<and> charIndex chars 1 = int (length chars) - 1
       \<and> char_at chars (charIndex chars br) = Some (chars ! nat (charIndex chars br)))"
proof -
  define br where "br = brightness settings (unat r) (unat g) (unat b)"
  have br: "0 \<le> br \<and> br \<le> 1"
    unfolding br_def by (intro brightness_range unat_byte)
  then have ci: "0 \<le> charIndex chars br" "charIndex chars br \<le> int (length chars) - 1"
    using charIndex_range[OF assms(1)] by simp_all
  show ?thesis
    unfolding Let_def br_def[symmetric]
    using br ci charIndex_ends[OF assms(1)] char_at_in_range[OF ci] by simp
qed

theorem ramp_index_in_bounds_witness:
  "charSets ''standard'' = Some (ascii '' .:-=+*#%@'')
   \<and> 0 \<le> brightness settings_std (unat (255 :: 8 word)) (unat (255 :: 8 word)) (unat (255 :: 8 word))
   \<and> brightness settings_std (unat (255 :: 8 word)) (unat (255 :: 8 word)) (unat (255 :: 8 word)) \<le> 1
   \<and> charIndex (ascii '' .:-=+*#%@'') 1 = 9
   \<and> char_at (ascii '' .:-=+*#%@'')
        (charIndex (ascii '' .:-=+*#%@'')
           (brightness settings_std (unat (255 :: 8 word)) (unat (255 :: 8 word)) (unat (255 :: 8 word))))
       \<noteq> None"
proof -
  have k: "charSets ''standard'' = Some (ascii '' .:-=+*#%@'')" by (simp add: charSets_def)
  show ?thesis
    using k ramp_index_in_bounds[OF k, of settings_std 255 255 255] by (simp add: ascii_def Let_def)
qed

section \<open>Sample grid size and strides\<close>

text \<open>
  C2, as the code has it: \<open>floor (n * resolution)\<close> is not coerced to at least 1.  For a
  positive dimension \<open>n\<close> and a resolution in \<open>(0, 1]\<close> it is never negative, and it is
  zero exactly when the rounded product is below 1.  A zero divisor gives the stride
  \<open>+Infinity\<close>, with which the walk samples index 0 only; any other divisor gives a
  finite stride of at least 1.
\<close>

theorem sample_size_and_strides:
  assumes "0 < n" "0 < res" "res \<le> 1"
  shows "0 \<le> sample_size n res
       \<and> (sample_size n res = 0 \<longleftrightarrow> fmul (real n) res < 1)
       \<and> (if sample_size n res = 0
          then widthStep_of n (sample_size n res) = Infinity
             \<and> heightStep_of n (sample_size n res) = Infinity
             \<and> samples Infinity n = [0]
          else (\<exists>k. widthStep_of n (sample_size n res) = Num k \<and> 1 \<le> k)
             \<and> (\<exists>k. heightStep_of n (sample_size n res) = Num k \<and> 1 \<le> k))"
proof -
  have r: "0 \<le> res" using assms by simp
  have w: "step_pos (widthStep_of n (sample_size n res))"
    and h: "step_pos (heightStep_of n (sample_size n res))"
    using widthStep_pos[OF assms(2,3,1)] heightStep_pos[OF assms(2,3,1)] by simp_all
  have nz: "sample_size n res \<noteq> 0 \<Longrightarrow>
      (\<exists>k. widthStep_of n (sample_size n res) = Num k \<and> 1 \<le> k)
    \<and> (\<exists>k. heightStep_of n (sample_size n res) = Num k \<and> 1 \<le> k)"
    using w h by (simp add: widthStep_of_def heightStep_of_def Let_def)
  have z: "sample_size n res = 0 \<Longrightarrow>
      widthStep_of n (sample_size n res) = Infinity
    \<and> heightStep_of n (sample_size n res) = Infinity \<and> samples Infinity n = [0]"
    using assms(1) by (simp add: widthStep_of_def heightStep_of_def samples_Infinity)
  show ?thesis
    using sample_size_nonneg[OF r, of n] sample_size_zero_iff[OF r, of n] nz z by simp
qed

theorem sample_size_and_strides_witness:
  "(0::nat) < 3 \<and> (0::real) < 1/4 \<and> (1/4::real) \<le> 1
   \<and> sample_size 3 (1/4) = 0 \<and> fmul (real 3) (1/4) < 1
   \<and> widthStep_of 3 (sample_size 3 (1/4)) = Infinity
   \<and> heightStep_of 3 (sample_size 3 (1/4)) = Infinity
   \<and> samples Infinity 3 = [0]"
proof -
  have s: "sample_size 3 (1/4) = 0" by (simp add: sample_size_def fmul_def float_defs)
  show ?thesis
    using sample_size_and_strides[of 3 "1/4"] s by simp
qed

text \<open>
  C2 as stated fails: a dimension of 3 pixels at resolution 0.25 has the sample size 0, not
  a value coerced to 1.
\<close>

theorem sample_size_not_coerced_counterexample:
  "0 < (3::nat) \<and> (0::real) < 1/4 \<and> (1/4::real) \<le> 1 \<and> \<not> 1 \<le> sample_size 3 (1/4)
   \<and> sample_size 3 (1/4) = 0"
  by (simp add: sample_size_def fmul_def float_defs)

section \<open>Pixel reads stay inside the buffer\<close>




section \<open>Failures\<close>

text \<open>
  C5: for every image whose width or height is 0 and every settings value, the
  conversion (with the canvas mounted) fails with \<open>InvalidDimensions\<close> and leaves no
  text and no grid; and whenever the conversion ends in an error, whatever the error, the
  text and the grid are empty: no partial output is returned.
\<close>

theorem zero_dimension_fails:
  "(canvasRef env \<and> imageRef env = Some img \<and> (imgWidth_of img = 0 \<or> imgHeight_of img = 0)
      \<longrightarrow> convertToAscii env settings st =
            Some (st\<lparr>error := Some InvalidDimensions, asciiArt := [], coloredAsciiArt := []\<rparr>))
   \<and> (\<forall>st'. convertToAscii env settings st = Some st' \<and> error st' \<noteq> None
      \<longrightarrow> asciiArt st' = [] \<and> coloredAsciiArt st' = [])"
proof (intro conjI impI allI)
  assume "canvasRef env \<and> imageRef env = Some img \<and> (imgWidth_of img = 0 \<or> imgHeight_of img = 0)"
  then have "convert_try env settings = Some (Inl InvalidDimensions)"
    by (auto simp add: convert_try_def Let_def)
  then show "convertToAscii env settings st =
      Some (st\<lparr>error := Some InvalidDimensions, asciiArt := [], coloredAsciiArt := []\<rparr>)"
    by (simp add: convertToAscii_def)
next
  fix st' assume "convertToAscii env settings st = Some st' \<and> error st' \<noteq> None"
  then show "asciiArt st' = []" "coloredAsciiArt st' = []"
    by (auto simp add: convertToAscii_def split: option.splits sum.splits)
qed

theorem zero_dimension_fails_witness:
  "canvasRef (env2x2\<lparr>imageRef := Some \<lparr>naturalWidth = 0, naturalHeight = 2, width = 0, height = 2\<rparr>\<rparr>)
   \<and> imgWidth_of \<lparr>naturalWidth = 0, naturalHeight = 2, width = 0, height = 2\<rparr> = 0
   \<and> convertToAscii
        (env2x2\<lparr>imageRef := Some \<lparr>naturalWidth = 0, naturalHeight = 2, width = 0, height = 2\<rparr>\<rparr>)
        settings_std st0
      = Some \<lparr>asciiArt = [], coloredAsciiArt = [], error = Some InvalidDimensions\<rparr>
   \<and> error \<lparr>asciiArt = [], coloredAsciiArt = [], error = Some InvalidDimensions\<rparr> \<noteq> None"
  using zero_dimension_fails[of
      "env2x2\<lparr>imageRef := Some \<lparr>naturalWidth = 0, naturalHeight = 2, width = 0, height = 2\<rparr>\<rparr>"
      "\<lparr>naturalWidth = 0, naturalHeight = 2, width = 0, height = 2\<rparr>" settings_std st0]
  by (simp add: env2x2_def imgWidth_of_def st0_def)

section \<open>A single pixel\<close>

text \<open>
  C7: for every 1 by 1 image and every resolution in \<open>(0, 1]\<close>, whatever the ramp, the
  mode and the inversion, the conversion yields a grid of exactly one row with exactly one
  cell, and a text of exactly that cell's character followed by a newline.
\<close>

theorem single_pixel_single_cell:
  assumes "canvasRef env" "imageRef env = Some img" "context2d env"
    and "imgWidth_of img = 1" "imgHeight_of img = 1"
    and "imageData env = Some data" "length data = 4"
    and "charSets (charSet settings) = Some chars"
    and "0 < resolution settings" "resolution settings \<le> 1"
  shows "\<exists>c col. convertToAscii env settings st =
           Some (st\<lparr>asciiArt := [c, 10], coloredAsciiArt := [[\<lparr>char = Some c, color = col\<rparr>]],
                    error := None\<rparr>)"
proof -
  let ?ws = "widthStep_of (imgWidth_of img) (sample_size (imgWidth_of img) (resolution settings))"
  let ?hs = "heightStep_of (imgHeight_of img) (sample_size (imgHeight_of img) (resolution settings))"
  have ws: "step_pos ?ws" using widthStep_pos[OF assms(9,10)] assms(4) by simp
  have hs: "step_pos ?hs" using heightStep_pos[OF assms(9,10)] assms(5) by simp
  have run: "convert_try env settings =
      Some (Inr (text_of (grid_of 1 1 data chars settings ?ws ?hs),
                 grid_of 1 1 data chars settings ?ws ?hs))"
    using convert_try_run[OF assms(1,2) _ _ assms(3,6,8)] ws hs assms(4,5) by simp
  have g: "grid_of 1 1 data chars settings ?ws ?hs = [[pixel_cell 1 data chars settings 0 0]]"
    using ws hs by (simp add: grid_of_def rows_of_def samples_one)
  have l: "length data = 4 * 1 * 1" using assms(7) by simp
  note cell = pixel_cell_in_bounds(1)[OF _ _ _ _ l assms(8), of 0 0 settings, simplified]
  show ?thesis
    unfolding convertToAscii_def run g
    by (auto simp add: cell text_of_def row_text_def char_text_def)
qed

theorem single_pixel_single_cell_witness:
  "canvasRef (env2x2\<lparr>imageRef := Some \<lparr>naturalWidth = 1, naturalHeight = 1, width = 1, height = 1\<rparr>,
                     imageData := Some [0, 0, 0, 255]\<rparr>)
   \<and> charSets (charSet settings_std) = Some (ascii '' .:-=+*#%@'')
   \<and> 0 < resolution settings_std \<and> resolution settings_std \<le> 1
   \<and> (\<exists>c col. convertToAscii
         (env2x2\<lparr>imageRef := Some \<lparr>naturalWidth = 1, naturalHeight = 1, width = 1, height = 1\<rparr>,
                  imageData := Some [0, 0, 0, 255]\<rparr>) settings_std st0
       = Some (st0\<lparr>asciiArt := [c, 10], coloredAsciiArt := [[\<lparr>char = Some c, color = col\<rparr>]],
                  error := None\<rparr>))"
proof -
  let ?env = "env2x2\<lparr>imageRef := Some \<lparr>naturalWidth = 1, naturalHeight = 1, width = 1, height = 1\<rparr>,
                     imageData := Some [0, 0, 0, 255]\<rparr>"
  have h: "canvasRef ?env"
    "imageRef ?env = Some \<lparr>naturalWidth = 1, naturalHeight = 1, width = 1, height = 1\<rparr>"
    "context2d ?env"
    "imgWidth_of \<lparr>naturalWidth = 1, naturalHeight = 1, width = 1, height = 1\<rparr> = 1"
    "imgHeight_of \<lparr>naturalWidth = 1, naturalHeight = 1, width = 1, height = 1\<rparr> = 1"
    "imageData ?env = Some [0, 0, 0, 255]" "length [0, 0, 0, 255 :: 8 word] = 4"
    "charSets (charSet settings_std) = Some (ascii '' .:-=+*#%@'')"
    "0 < resolution settings_std" "resolution settings_std \<le> 1"
    by (simp_all add: env2x2_def imgWidth_of_def imgHeight_of_def settings_std_def charSets_def)
  show ?thesis
    using h(1,8,9,10) single_pixel_single_cell[OF h, of st0] by simp
qed


section \<open>The 2 by 2 scenario\<close>

lemma std_chars: "charSets (charSet settings_std) = Some (ascii '' .:-=+*#%@'')"
  by (simp add: settings_std_def charSets_def)

lemma std_res: "resolution settings_std = 1"
  by (simp add: settings_std_def)

lemma std_size: "sample_size 2 1 = 2"
  by (simp add: sample_size_def fmul_def float_defs)

lemma std_steps0: "widthStep_of 2 2 = Num 1" "heightStep_of 2 2 = Num 2"
  unfolding widthStep_of_def heightStep_of_def Let_def
  by (simp_all add: fdiv_def float_defs)

lemma std_steps:
  "widthStep_of 2 (sample_size 2 (resolution settings_std)) = Num 1"
  "heightStep_of 2 (sample_size 2 (resolution settings_std)) = Num 2"
  by (simp_all only: std_res std_size std_steps0)

lemma std_samples: "samples (Num 1) 2 = [0, 1]" "samples (Num 2) 2 = [0]"
  by (simp_all add: samples_def samples_from_def walk.simps)

lemma std_brightness:
  "brightness settings_std 255 255 255 = 1" "brightness settings_std 0 0 0 = 0"
  using gray_white gray_black by (simp_all add: brightness_def settings_std_def)

lemma std_index:
  "charIndex (ascii '' .:-=+*#%@'') 1 = 9" "charIndex (ascii '' .:-=+*#%@'') 0 = 0"
  using charIndex_ends[OF std_chars] by (simp_all add: ascii_def)

lemma std_cells:
  "pixel_cell 2 [255, 255, 255, 255,  0, 0, 0, 255,  255, 255, 255, 255,  0, 0, 0, 255]
      (ascii '' .:-=+*#%@'') settings_std 0 0 = \<lparr>char = Some 64, color = White\<rparr>"
  "pixel_cell 2 [255, 255, 255, 255,  0, 0, 0, 255,  255, 255, 255, 255,  0, 0, 0, 255]
      (ascii '' .:-=+*#%@'') settings_std 0 1 = \<lparr>char = Some 32, color = White\<rparr>"
  by (simp_all add: pixel_cell_def data_at_def std_brightness std_index char_at_def)
     (simp_all add: ascii_def settings_std_def)

lemma std_run:
  "convert_try env2x2 settings_std =
     Some (Inr (ascii ''@ '' @ [10],
                [[\<lparr>char = Some 64, color = White\<rparr>, \<lparr>char = Some 32, color = White\<rparr>]]))"
proof -
  have e: "canvasRef env2x2"
    "imageRef env2x2 = Some \<lparr>naturalWidth = 2, naturalHeight = 2, width = 2, height = 2\<rparr>"
    "0 < imgWidth_of \<lparr>naturalWidth = 2, naturalHeight = 2, width = 2, height = 2\<rparr>"
    "0 < imgHeight_of \<lparr>naturalWidth = 2, naturalHeight = 2, width = 2, height = 2\<rparr>"
    "context2d env2x2"
    "imageData env2x2 = Some [255, 255, 255, 255,  0, 0, 0, 255,  255, 255, 255, 255,  0, 0, 0, 255]"
    by (simp_all add: env2x2_def imgWidth_of_def imgHeight_of_def)
  have d: "imgWidth_of \<lparr>naturalWidth = 2, naturalHeight = 2, width = 2, height = 2\<rparr> = 2"
    "imgHeight_of \<lparr>naturalWidth = 2, naturalHeight = 2, width = 2, height = 2\<rparr> = 2"
    by (simp_all add: imgWidth_of_def imgHeight_of_def)
  have g: "grid_of 2 2 [255, 255, 255, 255,  0, 0, 0, 255,  255, 255, 255, 255,  0, 0, 0, 255]
        (ascii '' .:-=+*#%@'') settings_std (Num 1) (Num 2)
      = [[\<lparr>char = Some 64, color = White\<rparr>, \<lparr>char = Some 32, color = White\<rparr>]]"
    by (simp add: grid_of_def rows_of_def std_samples std_cells)
  have t: "text_of [[\<lparr>char = Some 64, color = White\<rparr>, \<lparr>char = Some 32, color = White\<rparr>]]
      = ascii ''@ '' @ [10]"
    by (simp add: text_of_def row_text_def char_text_def ascii_def)
  show ?thesis
    unfolding convert_try_run[OF e std_chars] d std_steps g t by simp
qed

text \<open>
  C1, as the code has it: for the 2 by 2 image with the pixels white, black, white, black,
  resolution 1.0, the standard ramp, grayscale and no inversion, the conversion returns the
  text \<open>"@ \\n"\<close> and a grid of one row of two cells.  The vertical stride is
  \<open>ceil (2 / 2 / 0.5) = 2\<close>, so only the row \<open>y = 0\<close> is sampled; in it the white pixel
  maps to the last ramp character \<open>@\<close> and the black pixel to the first, the space.
\<close>

theorem two_by_two_one_row:
  "convertToAscii env2x2 settings_std st =
     Some (st\<lparr>asciiArt := ascii ''@ '' @ [10],
              coloredAsciiArt := [[\<lparr>char = Some (of_char CHR ''@''), color = White\<rparr>,
                                   \<lparr>char = Some (of_char CHR '' ''), color = White\<rparr>]],
              error := None\<rparr>)
   \<and> widthStep_of 2 (sample_size 2 (resolution settings_std)) = Num 1
   \<and> heightStep_of 2 (sample_size 2 (resolution settings_std)) = Num 2
   \<and> charSets (charSet settings_std) = Some (ascii '' .:-=+*#%@'')
   \<and> last (ascii '' .:-=+*#%@'') = of_char CHR ''@''
   \<and> hd (ascii '' .:-=+*#%@'') = of_char CHR '' ''"
  by (simp add: convertToAscii_def std_run std_steps std_chars) (simp add: ascii_def)

text \<open>
  C1 as stated fails: the text is not the two rows \<open>"@ \\n@ \\n"\<close>, and the grid has one
  row, not two.
\<close>

theorem two_by_two_two_rows_counterexample:
  "map_option asciiArt (convertToAscii env2x2 settings_std st0)
     \<noteq> Some (ascii ''@ '' @ [10] @ ascii ''@ '' @ [10])
   \<and> map_option asciiArt (convertToAscii env2x2 settings_std st0) = Some (ascii ''@ '' @ [10])"
  by (simp add: convertToAscii_def std_run ascii_def)


section \<open>Text and grid agree\<close>

lemma split_on_line:
  "sep \<notin> set l \<Longrightarrow> split_on sep (l @ sep # rest) = l # split_on sep rest"
proof (induction l)
  case Nil
  show ?case by simp
next
  case (Cons c l)
  then show ?case by simp
qed

lemma split_on_lines:
  "\<forall>l \<in> set ls. sep \<notin> set l \<Longrightarrow> split_on sep (concat (map (\<lambda>l. l @ [sep]) ls)) = ls @ [[]]"
proof (induction ls)
  case Nil
  show ?case by simp
next
  case (Cons l ls)
  then show ?case using split_on_line[of sep l] by simp
qed

text \<open>Every cell of the grid of a well-formed buffer is the cell of a pixel inside it.\<close>

lemma grid_cell:
  assumes "row \<in> set (grid_of W H d chars s ws hs)" "cell \<in> set row"
  obtains x y where "0 \<le> x" "x < int W" "0 \<le> y" "y < int H" "cell = pixel_cell W d chars s y x"
proof -
  from assms(1) obtain y where y: "y \<in> set (samples hs H)"
    and row: "row = map (pixel_cell W d chars s y) (samples ws W)"
    by (auto simp add: grid_of_def rows_of_def)
  from assms(2) row obtain x where x: "x \<in> set (samples ws W)" and c: "cell = pixel_cell W d chars s y x"
    by auto
  show ?thesis using samples_bounds[OF x] samples_bounds[OF y] c by (intro that[of x y]) simp_all
qed

lemma grid_char:
  assumes "row \<in> set (grid_of W H d chars s ws hs)" "cell \<in> set row"
    and "length d = 4 * W * H" "charSets key = Some chars"
  shows "\<exists>c. char cell = Some c \<and> c \<in> set chars"
proof -
  from grid_cell[OF assms(1,2)] obtain x y where xy: "0 \<le> x" "x < int W" "0 \<le> y" "y < int H"
    and c: "cell = pixel_cell W d chars s y x" by blast
  note pc = pixel_cell_in_bounds[OF xy assms(3,4), of s]
  let ?ci = "charIndex chars (brightness s (unat (d ! nat ((y * int W + x) * 4)))
      (unat (d ! nat ((y * int W + x) * 4 + 1))) (unat (d ! nat ((y * int W + x) * 4 + 2))))"
  have "nat ?ci < length chars" using pc(2,3) by linarith
  then have "chars ! nat ?ci \<in> set chars" by simp
  then show ?thesis unfolding c pc(1) by simp
qed

lemma row_text_defined:
  assumes "\<forall>cell \<in> set row. char cell \<noteq> None"
  shows "row_text row = map (\<lambda>cell. the (char cell)) row"
  using assms by (induction row) (auto simp add: row_text_def char_text_def)

lemma wf_env_length:
  "wf_env env \<Longrightarrow> imageRef env = Some img \<Longrightarrow> imageData env = Some d \<Longrightarrow>
     length d = 4 * imgWidth_of img * imgHeight_of img"
  by (simp add: wf_env_def)

text \<open>
  C4: for every successful conversion of a well-formed image buffer, the text is the
  concatenation of the characters of each grid row, each row followed by a newline (the last
  one too); so the character of the cell in row \<open>r\<close> and column \<open>c\<close> of the grid is
  the character at position \<open>c\<close> of line \<open>r\<close> of the text split at newlines.
\<close>

theorem text_matches_grid:
  assumes "wf_env env" "convertToAscii env settings st = Some st'" "error st' = None"
  shows "\<exists>lines.
           map (map char) (coloredAsciiArt st') = map (map Some) lines
         \<and> asciiArt st' = concat (map (\<lambda>l. l @ [10]) lines)
         \<and> split_on 10 (asciiArt st') = lines @ [[]]
         \<and> (\<forall>r < length (coloredAsciiArt st'). \<forall>c < length (coloredAsciiArt st' ! r).
               char (coloredAsciiArt st' ! r ! c) = Some (split_on 10 (asciiArt st') ! r ! c))"
proof -
  from convert_success[OF assms(2,3)] obtain img d chars where
    img: "imageRef env = Some img" and d: "imageData env = Some d"
    and chars: "charSets (charSet settings) = Some chars"
    and grid: "coloredAsciiArt st' = grid_of (imgWidth_of img) (imgHeight_of img) d chars settings
        (widthStep_of (imgWidth_of img) (sample_size (imgWidth_of img) (resolution settings)))
        (heightStep_of (imgHeight_of img) (sample_size (imgHeight_of img) (resolution settings)))"
    and tx: "asciiArt st' = text_of (coloredAsciiArt st')"
    by metis
  note len = wf_env_length[OF assms(1) img d]
  define G where "G = coloredAsciiArt st'"
  define lines where "lines = map (map (\<lambda>cell. the (char cell))) G"
  have cells: "\<exists>c. char cell = Some c \<and> c \<in> set chars" if "row \<in> set G" "cell \<in> set row" for row cell
    using grid_char[OF _ that(2) len chars] that(1) unfolding G_def grid by blast
  have no_nl: "10 \<notin> set chars" by (rule ramp_facts(1)[OF chars])
  have cd: "char cell = Some (the (char cell))" if "row \<in> set G" "cell \<in> set row" for row cell
    using cells[OF that] by auto
  have 1: "map (map char) G = map (map Some) lines"
    unfolding lines_def using cd by (auto simp add: comp_def)
  have rt: "row_text row = map (\<lambda>cell. the (char cell)) row" if "row \<in> set G" for row
    using cells[OF that] by (intro row_text_defined) auto
  have 2: "asciiArt st' = concat (map (\<lambda>l. l @ [10]) lines)"
    unfolding tx G_def[symmetric] text_of_def lines_def using rt
    by (simp add: comp_def cong: map_cong)
  have "\<forall>l \<in> set lines. 10 \<notin> set l"
    unfolding lines_def using cells no_nl by fastforce
  from split_on_lines[OF this] have 3: "split_on 10 (asciiArt st') = lines @ [[]]"
    unfolding 2 .
  have 4: "char (G ! r ! c) = Some (split_on 10 (asciiArt st') ! r ! c)"
    if "r < length G" "c < length (G ! r)" for r c
  proof -
    have "G ! r \<in> set G" "G ! r ! c \<in> set (G ! r)" using that by simp_all
    from cells[OF this] obtain ch where ch: "char (G ! r ! c) = Some ch" by blast
    have "(lines @ [[]]) ! r ! c = the (char (G ! r ! c))"
      using that by (simp add: lines_def nth_append)
    then show ?thesis unfolding 3 using ch by simp
  qed
  show ?thesis
    using 1 2 3 4 unfolding G_def by blast
qed

theorem text_matches_grid_witness:
  "wf_env env2x2
   \<and> convertToAscii env2x2 settings_std st0 =
       Some \<lparr>asciiArt = [64, 32, 10],
             coloredAsciiArt = [[\<lparr>char = Some 64, color = White\<rparr>, \<lparr>char = Some 32, color = White\<rparr>]],
             error = None\<rparr>
   \<and> (\<exists>lines. map (map char) [[\<lparr>char = Some 64, color = White\<rparr>, \<lparr>char = Some 32, color = White\<rparr>]]
                  = map (map Some) lines
              \<and> [64, 32, 10] = concat (map (\<lambda>l. l @ [10]) lines)
              \<and> split_on 10 [64, 32, 10] = lines @ [[]])"
proof -
  let ?st = "\<lparr>asciiArt = [64, 32, 10],
             coloredAsciiArt = [[\<lparr>char = Some 64, color = White\<rparr>, \<lparr>char = Some 32, color = White\<rparr>]],
             error = None\<rparr>"
  have w: "wf_env env2x2" by (simp add: wf_env_def env2x2_def imgWidth_of_def imgHeight_of_def)
  have r: "convertToAscii env2x2 settings_std st0 = Some ?st"
    by (simp add: convertToAscii_def std_run st0_def ascii_def)
  have e: "error ?st = None" by simp
  from text_matches_grid[OF w r e] show ?thesis using w r by auto
qed


section \<open>Colour mode\<close>

lemma grid_of_nth:
  assumes "i < length (grid_of W H d chars s ws hs)" "j < length (grid_of W H d chars s ws hs ! i)"
  shows "i < length (samples hs H)" "j < length (samples ws W)"
    and "grid_of W H d chars s ws hs ! i ! j = pixel_cell W d chars s (samples hs H ! i) (samples ws W ! j)"
proof -
  show i: "i < length (samples hs H)" using assms(1) by (simp add: grid_of_def rows_of_def)
  then have row: "grid_of W H d chars s ws hs ! i
      = map (pixel_cell W d chars s (samples hs H ! i)) (samples ws W)"
    by (simp add: grid_of_def rows_of_def)
  show j: "j < length (samples ws W)" using assms(2) unfolding row by simp
  show "grid_of W H d chars s ws hs ! i ! j
      = pixel_cell W d chars s (samples hs H ! i) (samples ws W ! j)"
    unfolding row using j by simp
qed

text \<open>
  C6: in colour mode, the cell in row \<open>i\<close> and column \<open>j\<close> of a successful conversion
  of a well-formed image buffer belongs to the sampled pixel \<open>(x, y)\<close>, the \<open>j\<close>-th
  column and \<open>i\<close>-th row of the stride walk, whose bytes \<open>r\<close>, \<open>g\<close>, \<open>b\<close> are read at
  \<open>pos = (y * imgWidth + x) * 4\<close>.  Its colour is \<open>rgb(r', g', b')\<close>, where each source
  channel is multiplied by \<open>brightnessFactor = charIndex / (length - 1) * 1.5 + 0.5\<close>
  (every operation rounded to a double), rounded to the nearest integer, and clamped to at
  most 255 and at least 40.  The factor lies in \<open>[0.5, 2]\<close> and each of the three
  channels in \<open>[40, 255]\<close>.
\<close>

theorem color_channels_in_range:
  assumes "wf_env env" "convertToAscii env settings st = Some st'" "error st' = None"
    and "\<not> grayscale settings"
    and "i < length (coloredAsciiArt st')" "j < length (coloredAsciiArt st' ! i)"
  shows "\<exists>img data chars.
           imageRef env = Some img \<and> imageData env = Some data
         \<and> charSets (charSet settings) = Some chars
         \<and> (let imgWidth = imgWidth_of img;
                 imgHeight = imgHeight_of img;
                 x = samples (widthStep_of imgWidth (sample_size imgWidth (resolution settings)))
                       imgWidth ! j;
                 y = samples (heightStep_of imgHeight (sample_size imgHeight (resolution settings)))
                       imgHeight ! i;
                 pos = (y * int imgWidth + x) * 4;
                 r = unat (data ! nat pos);
                 g = unat (data ! nat (pos + 1));
                 b = unat (data ! nat (pos + 2));
                 ci = charIndex chars (brightness settings r g b);
                 factor = rnd (rnd (rnd (of_int ci / of_int (int (length chars) - 1)) * (3/2)) + 1/2);
                 r' = max (min \<lfloor>rnd (real r * factor) + 1/2\<rfloor> 255) 40;
                 g' = max (min \<lfloor>rnd (real g * factor) + 1/2\<rfloor> 255) 40;
                 b' = max (min \<lfloor>rnd (real b * factor) + 1/2\<rfloor> 255) 40
             in 0 \<le> x \<and> x < int imgWidth \<and> 0 \<le> y \<and> y < int imgHeight
              \<and> 0 \<le> pos \<and> nat pos + 2 < length data
              \<and> 0 \<le> ci \<and> ci \<le> int (length chars) - 1
              \<and> brightnessFactor chars ci = factor \<and> 1/2 \<le> factor \<and> factor \<le> 2
              \<and> adjustColorBrightness r g b factor = Rgb r' g' b'
              \<and> coloredAsciiArt st' ! i ! j = \<lparr>char = Some (chars ! nat ci), color = Rgb r' g' b'\<rparr>
              \<and> 40 \<le> r' \<and> r' \<le> 255 \<and> 40 \<le> g' \<and> g' \<le> 255 \<and> 40 \<le> b' \<and> b' \<le> 255)"
proof -
  from convert_success[OF assms(2,3)] obtain img d chars where
    img: "imageRef env = Some img" and d: "imageData env = Some d"
    and chars: "charSets (charSet settings) = Some chars"
    and grid: "coloredAsciiArt st' = grid_of (imgWidth_of img) (imgHeight_of img) d chars settings
        (widthStep_of (imgWidth_of img) (sample_size (imgWidth_of img) (resolution settings)))
        (heightStep_of (imgHeight_of img) (sample_size (imgHeight_of img) (resolution settings)))"
    by metis
  note len = wf_env_length[OF assms(1) img d]
  define W where "W = imgWidth_of img"
  define H where "H = imgHeight_of img"
  define ws where "ws = widthStep_of W (sample_size W (resolution settings))"
  define hs where "hs = heightStep_of H (sample_size H (resolution settings))"
  define x where "x = samples ws W ! j"
  define y where "y = samples hs H ! i"
  define pos where "pos = (y * int W + x) * 4"
  define r where "r = unat (d ! nat pos)"
  define g where "g = unat (d ! nat (pos + 1))"
  define b where "b = unat (d ! nat (pos + 2))"
  define ci where "ci = charIndex chars (brightness settings r g b)"
  define factor where
    "factor = rnd (rnd (rnd (of_int ci / of_int (int (length chars) - 1)) * (3/2)) + 1/2)"
  define r' where "r' = max (min \<lfloor>rnd (real r * factor) + 1/2\<rfloor> 255) 40"
  define g' where "g' = max (min \<lfloor>rnd (real g * factor) + 1/2\<rfloor> 255) 40"
  define b' where "b' = max (min \<lfloor>rnd (real b * factor) + 1/2\<rfloor> 255) 40"
  have grid': "coloredAsciiArt st' = grid_of W H d chars settings ws hs"
    unfolding grid W_def H_def ws_def hs_def ..
  note nth = grid_of_nth[OF assms(5,6)[unfolded grid']]
  have xs: "x \<in> set (samples ws W)" unfolding x_def using nth(2) by simp
  have ys: "y \<in> set (samples hs H)" unfolding y_def using nth(1) by simp
  have xb: "0 \<le> x" "x < int W" using samples_bounds[OF xs] by simp_all
  have yb: "0 \<le> y" "y < int H" using samples_bounds[OF ys] by simp_all
  have len': "length d = 4 * W * H" using len unfolding W_def H_def .
  note pb = pos_bounds[OF xb yb, folded pos_def]
  have inb: "nat pos + 2 < length d"
  proof -
    have "int (length d) = 4 * int W * int H" using len' by simp
    then show ?thesis using pb by linarith
  qed
  note pc = pixel_cell_in_bounds[OF xb yb len' chars, of settings,
      folded pos_def, folded r_def g_def b_def, folded ci_def]
  have f: "brightnessFactor chars ci = factor"
    unfolding factor_def brightnessFactor_def fadd_def fmul_def fdiv_def ..
  note fr = brightnessFactor_range[OF chars pc(2,3), unfolded f]
  have adj: "adjustColorBrightness r g b factor = Rgb r' g' b'"
    unfolding adjustColorBrightness_def Let_def js_round_def fmul_def r'_def g'_def b'_def ..
  have cell: "coloredAsciiArt st' ! i ! j = \<lparr>char = Some (chars ! nat ci), color = Rgb r' g' b'\<rparr>"
    unfolding grid' nth(3) x_def[symmetric] y_def[symmetric] pc(1) f adj
    using assms(4) by simp
  have rng: "40 \<le> r'" "r' \<le> 255" "40 \<le> g'" "g' \<le> 255" "40 \<le> b'" "b' \<le> 255"
    unfolding r'_def g'_def b'_def by simp_all
  have "imageRef env = Some img \<and> imageData env = Some d
         \<and> charSets (charSet settings) = Some chars
         \<and> (0 \<le> x \<and> x < int W \<and> 0 \<le> y \<and> y < int H
              \<and> 0 \<le> pos \<and> nat pos + 2 < length d
              \<and> 0 \<le> ci \<and> ci \<le> int (length chars) - 1
              \<and> brightnessFactor chars ci = factor \<and> 1/2 \<le> factor \<and> factor \<le> 2
              \<and> adjustColorBrightness r g b factor = Rgb r' g' b'
              \<and> coloredAsciiArt st' ! i ! j = \<lparr>char = Some (chars ! nat ci), color = Rgb r' g' b'\<rparr>
              \<and> 40 \<le> r' \<and> r' \<le> 255 \<and> 40 \<le> g' \<and> g' \<le> 255 \<and> 40 \<le> b' \<and> b' \<le> 255)"
    using img d chars xb yb pb(1) inb pc(2,3) f fr adj cell rng by blast
  then show ?thesis
    unfolding Let_def W_def H_def ws_def hs_def x_def y_def pos_def r_def g_def b_def ci_def
      factor_def r'_def g'_def b'_def
    by blast
qed


text \<open>The dark grey pixel \<open>(60, 60, 60)\<close> in colour mode: its brightness lies between
  \<open>29/128\<close> and \<open>1/4\<close>, so its ramp index is 2.\<close>

lemma grey_sum_bounds:
  "(29/128)\<^sup>2 \<le> fadd (fadd (fmul (fmul (rnd (299/1000)) (fdiv (real 60) 255)) (fdiv (real 60) 255))
                            (fmul (fmul (rnd (587/1000)) (fdiv (real 60) 255)) (fdiv (real 60) 255)))
                      (fmul (fmul (rnd (114/1000)) (fdiv (real 60) 255)) (fdiv (real 60) 255))"
  "fadd (fadd (fmul (fmul (rnd (299/1000)) (fdiv (real 60) 255)) (fdiv (real 60) 255))
                            (fmul (fmul (rnd (587/1000)) (fdiv (real 60) 255)) (fdiv (real 60) 255)))
                      (fmul (fmul (rnd (114/1000)) (fdiv (real 60) 255)) (fdiv (real 60) 255)) \<le> (1/4)\<^sup>2"
  by (simp_all add: c299 c587 c114 fadd_def fmul_def fdiv_def float_defs power2_eq_square)

lemma grey_brightness_bounds:
  "29/128 \<le> brightness settings_colour 60 60 60" "brightness settings_colour 60 60 60 \<le> 1/4"
proof -
  let ?s = "fadd (fadd (fmul (fmul (rnd (299/1000)) (fdiv (real 60) 255)) (fdiv (real 60) 255))
                            (fmul (fmul (rnd (587/1000)) (fdiv (real 60) 255)) (fdiv (real 60) 255)))
                      (fmul (fmul (rnd (114/1000)) (fdiv (real 60) 255)) (fdiv (real 60) 255))"
  have b: "brightness settings_colour 60 60 60 = rnd (sqrt ?s)"
    by (simp add: brightness_def settings_colour_def fsqrt_def)
  have lo: "29/128 \<le> sqrt ?s" by (rule real_le_rsqrt) (rule grey_sum_bounds(1))
  have hi: "sqrt ?s \<le> 1/4" by (rule real_le_lsqrt[OF _ grey_sum_bounds(2)]) simp
  have e: "rnd (29/128) = 29/128" "rnd (1/4) = 1/4" by (simp_all add: float_defs)
  have "rnd (29/128) \<le> rnd (sqrt ?s)" using lo by (intro rnd_mono) simp_all
  then show "29/128 \<le> brightness settings_colour 60 60 60" unfolding b e .
  have "0 \<le> ?s" by (rule color_sum_range(1)) simp_all
  then have "0 \<le> sqrt ?s" by simp
  then have "rnd (sqrt ?s) \<le> rnd (1/4)" using hi by (intro rnd_mono)
  then show "brightness settings_colour 60 60 60 \<le> 1/4" unfolding b e .
qed

lemma grey_index: "charIndex (ascii '' .:-=+*#%@'') (brightness settings_colour 60 60 60) = 2"
proof -
  let ?b = "brightness settings_colour 60 60 60"
  have e: "rnd (261/128) = 261/128" "rnd (9/4) = 9/4" by (simp_all add: float_defs)
  have "rnd (261/128) \<le> rnd (?b * 9)" using grey_brightness_bounds(1) by (intro rnd_mono) simp_all
  then have lo: "2 \<le> rnd (?b * 9)" unfolding e by simp
  have "0 \<le> ?b" using grey_brightness_bounds(1) by simp
  then have "rnd (?b * 9) \<le> rnd (9/4)" using grey_brightness_bounds(2) by (intro rnd_mono) simp_all
  then have hi: "rnd (?b * 9) < 3" unfolding e by simp
  have "\<lfloor>rnd (?b * 9)\<rfloor> = 2" using lo hi by (simp add: floor_eq_iff)
  then show ?thesis by (simp add: charIndex_def fmul_def ascii_def)
qed

lemma grey_factor: "rnd (rnd (rnd (2 / 9) * (3/2)) + 1/2) = 3752999689475413 / 2 ^ 52"
  by (simp add: float_defs)

lemma grey_channel:
  "max (min \<lfloor>rnd (60 * (3752999689475413 / 2 ^ 52)) + 1/2\<rfloor> 255) 40 = (50::int)"
  by (simp add: float_defs)


lemma std_ramp: "length (ascii '' .:-=+*#%@'') = 10" "ascii '' .:-=+*#%@'' ! 2 = of_char CHR '':''"
  by (simp_all add: ascii_def)

theorem color_channels_in_range_witness:
  "wf_env env_grey \<and> \<not> grayscale settings_colour
   \<and> (\<exists>st'. convertToAscii env_grey settings_colour st0 = Some st' \<and> error st' = None
          \<and> 0 < length (coloredAsciiArt st') \<and> 0 < length (coloredAsciiArt st' ! 0)
          \<and> coloredAsciiArt st' ! 0 ! 0 = \<lparr>char = Some (of_char CHR '':''), color = Rgb 50 50 50\<rparr>)"
proof -
  let ?d = "[60, 60, 60, 255,  0, 0, 0, 255,  255, 255, 255, 255,  0, 0, 0, 255] :: 8 word list"
  let ?img = "\<lparr>naturalWidth = 2, naturalHeight = 2, width = 2, height = 2\<rparr>"
  let ?row = "[pixel_cell 2 ?d (ascii '' .:-=+*#%@'') settings_colour 0 0,
               pixel_cell 2 ?d (ascii '' .:-=+*#%@'') settings_colour 0 1]"
  let ?st = "st0\<lparr>asciiArt := text_of [?row], coloredAsciiArt := [?row], error := None\<rparr>"
  have w: "wf_env env_grey" by (simp add: wf_env_def env_grey_def imgWidth_of_def imgHeight_of_def)
  have e: "canvasRef env_grey" "imageRef env_grey = Some ?img"
    "0 < imgWidth_of ?img" "0 < imgHeight_of ?img" "context2d env_grey"
    "imageData env_grey = Some ?d"
    "charSets (charSet settings_colour) = Some (ascii '' .:-=+*#%@'')"
    by (simp_all add: env_grey_def imgWidth_of_def imgHeight_of_def settings_colour_def charSets_def)
  have dims: "imgWidth_of ?img = 2" "imgHeight_of ?img = 2" "resolution settings_colour = 1"
    by (simp_all add: imgWidth_of_def imgHeight_of_def settings_colour_def)
  have g: "grid_of 2 2 ?d (ascii '' .:-=+*#%@'') settings_colour (Num 1) (Num 2) = [?row]"
    by (simp add: grid_of_def rows_of_def std_samples)
  have run: "convertToAscii env_grey settings_colour st0 = Some ?st"
    unfolding convertToAscii_def convert_try_run[OF e] dims std_size std_steps0 g by simp
  have h: "error ?st = None" "\<not> grayscale settings_colour"
    "0 < length (coloredAsciiArt ?st)" "0 < length (coloredAsciiArt ?st ! 0)"
    by (simp_all add: settings_colour_def)
  from color_channels_in_range[OF w run h] obtain img data chars where
    a: "imageRef env_grey = Some img" "imageData env_grey = Some data"
       "charSets (charSet settings_colour) = Some chars"
    and L: "let imgWidth = imgWidth_of img;
                 imgHeight = imgHeight_of img;
                 x = samples (widthStep_of imgWidth (sample_size imgWidth (resolution settings_colour)))
                       imgWidth ! 0;
                 y = samples (heightStep_of imgHeight (sample_size imgHeight (resolution settings_colour)))
                       imgHeight ! 0;
                 pos = (y * int imgWidth + x) * 4;
                 r = unat (data ! nat pos);
                 g = unat (data ! nat (pos + 1));
                 b = unat (data ! nat (pos + 2));
                 ci = charIndex chars (brightness settings_colour r g b);
                 factor = rnd (rnd (rnd (of_int ci / of_int (int (length chars) - 1)) * (3/2)) + 1/2);
                 r' = max (min \<lfloor>rnd (real r * factor) + 1/2\<rfloor> 255) 40;
                 g' = max (min \<lfloor>rnd (real g * factor) + 1/2\<rfloor> 255) 40;
                 b' = max (min \<lfloor>rnd (real b * factor) + 1/2\<rfloor> 255) 40
             in coloredAsciiArt ?st ! 0 ! 0 = \<lparr>char = Some (chars ! nat ci), color = Rgb r' g' b'\<rparr>"
    unfolding Let_def by blast
  have eqs: "img = ?img" "data = ?d" "chars = ascii '' .:-=+*#%@''"
    using a e(2,6,7) by simp_all
  have px: "unat (?d ! nat ((0 * int 2 + 0) * 4)) = 60" "unat (?d ! nat ((0 * int 2 + 0) * 4 + 1)) = 60"
    "unat (?d ! nat ((0 * int 2 + 0) * 4 + 2)) = 60"
    by simp_all
  have s0: "samples (Num 1) 2 ! 0 = 0" "samples (Num 2) 2 ! 0 = 0" by (simp_all add: std_samples)
  have ci: "nat 2 = 2" by simp
  have fz: "rnd (rnd (rnd (of_int 2 / of_int (int 10 - 1)) * (3/2)) + 1/2) = 3752999689475413 / 2 ^ 52"
    using grey_factor by simp
  have ch: "max (min \<lfloor>rnd (real 60 * (3752999689475413 / 2 ^ 52)) + 1/2\<rfloor> 255) 40 = (50::int)"
    using grey_channel by simp
  have cell: "coloredAsciiArt ?st ! 0 ! 0 = \<lparr>char = Some (of_char CHR '':''), color = Rgb 50 50 50\<rparr>"
    using L
    unfolding Let_def eqs dims std_size std_steps0 s0 px grey_index std_ramp ci fz ch .
  show ?thesis
    using w run h cell by blast
qed


section \<open>The alpha channel\<close>

lemma data_at_agree:
  assumes "length d1 = length d2" "\<forall>i < length d1. i mod 4 \<noteq> 3 \<longrightarrow> d1 ! i = d2 ! i"
    and "p mod 4 \<noteq> 3"
  shows "data_at d1 p = data_at d2 p"
proof (cases "0 \<le> p \<and> nat p < length d1")
  case True
  then have "nat p mod 4 = nat (p mod 4)" by (simp add: nat_mod_distrib)
  then have "nat p mod 4 \<noteq> 3" using assms(3) True by (simp add: nat_eq_iff)
  then have "d1 ! nat p = d2 ! nat p" using assms(2) True by simp
  then show ?thesis using True assms(1) by (simp add: data_at_def)
next
  case False
  then show ?thesis using assms(1) by (auto simp add: data_at_def)
qed

lemma pixel_cell_agree:
  assumes "length d1 = length d2" "\<forall>i < length d1. i mod 4 \<noteq> 3 \<longrightarrow> d1 ! i = d2 ! i"
  shows "pixel_cell W d1 chars s y x = pixel_cell W d2 chars s y x"
proof -
  let ?p = "(y * int W + x) * 4"
  have m: "?p mod 4 \<noteq> 3" "(?p + 1) mod 4 \<noteq> 3" "(?p + 2) mod 4 \<noteq> 3" by presburger+
  show ?thesis
    unfolding pixel_cell_def Let_def
      data_at_agree[OF assms m(1)] data_at_agree[OF assms m(2)] data_at_agree[OF assms m(3)] ..
qed

lemma grid_of_agree:
  assumes "length d1 = length d2" "\<forall>i < length d1. i mod 4 \<noteq> 3 \<longrightarrow> d1 ! i = d2 ! i"
  shows "grid_of W H d1 chars s ws hs = grid_of W H d2 chars s ws hs"
  by (simp add: grid_of_def rows_of_def pixel_cell_agree[OF assms])

lemma convert_try_agree:
  assumes "length d1 = length d2" "\<forall>i < length d1. i mod 4 \<noteq> 3 \<longrightarrow> d1 ! i = d2 ! i"
  shows "convert_try (env\<lparr>imageData := Some d1\<rparr>) s = convert_try (env\<lparr>imageData := Some d2\<rparr>) s"
proof (cases "\<exists>img chars. canvasRef env \<and> imageRef env = Some img \<and> 0 < imgWidth_of img
    \<and> 0 < imgHeight_of img \<and> context2d env \<and> charSets (charSet s) = Some chars")
  case True
  then obtain img chars where h: "canvasRef env" "imageRef env = Some img" "0 < imgWidth_of img"
    "0 < imgHeight_of img" "context2d env" "charSets (charSet s) = Some chars" by blast
  have "convert_try (env\<lparr>imageData := Some d\<rparr>) s =
     (if step_pos (widthStep_of (imgWidth_of img) (sample_size (imgWidth_of img) (resolution s)))
       \<and> step_pos (heightStep_of (imgHeight_of img) (sample_size (imgHeight_of img) (resolution s)))
      then Some (Inr (text_of (grid_of (imgWidth_of img) (imgHeight_of img) d chars s
                 (widthStep_of (imgWidth_of img) (sample_size (imgWidth_of img) (resolution s)))
                 (heightStep_of (imgHeight_of img) (sample_size (imgHeight_of img) (resolution s)))),
               grid_of (imgWidth_of img) (imgHeight_of img) d chars s
                 (widthStep_of (imgWidth_of img) (sample_size (imgWidth_of img) (resolution s)))
                 (heightStep_of (imgHeight_of img) (sample_size (imgHeight_of img) (resolution s)))))
      else None)" for d
    using h by (intro convert_try_run) simp_all
  then show ?thesis by (simp add: grid_of_agree[OF assms])
next
  case False
  then show ?thesis
    by (auto simp add: convert_try_def Let_def split: option.splits)
qed

text \<open>
  C9: the output does not depend on the alpha channel.  For two image buffers of the same
  size that agree on the red, green and blue byte of every pixel, and for every image
  element, environment and settings, the conversion behaves the same: the same text, grid
  and error, or no return in both.
\<close>

theorem alpha_independent:
  assumes "length d1 = length d2" "\<forall>i < length d1. i mod 4 \<noteq> 3 \<longrightarrow> d1 ! i = d2 ! i"
  shows "convertToAscii (env\<lparr>imageData := Some d1\<rparr>) settings st =
         convertToAscii (env\<lparr>imageData := Some d2\<rparr>) settings st"
  by (simp add: convertToAscii_def convert_try_agree[OF assms])

theorem alpha_independent_witness:
  "length [255, 255, 255, 255,  0, 0, 0, 255,  255, 255, 255, 255,  0, 0, 0, 255 :: 8 word]
     = length [255, 255, 255, 7,  0, 0, 0, 255,  255, 255, 255, 255,  0, 0, 0, 255 :: 8 word]
   \<and> convertToAscii env2x2 settings_std st0 =
       convertToAscii (env2x2\<lparr>imageData :=
           Some [255, 255, 255, 7,  0, 0, 0, 255,  255, 255, 255, 255,  0, 0, 0, 255]\<rparr>) settings_std st0"
proof -
  let ?d1 = "[255, 255, 255, 255,  0, 0, 0, 255,  255, 255, 255, 255,  0, 0, 0, 255] :: 8 word list"
  let ?d2 = "[255, 255, 255, 7,  0, 0, 0, 255,  255, 255, 255, 255,  0, 0, 0, 255] :: 8 word list"
  have l: "length ?d1 = length ?d2" by simp
  have g: "\<forall>i < length d. i mod 4 \<noteq> 3 \<longrightarrow> d ! i = d[3 := v] ! i" for d :: "8 word list" and v
  proof (intro allI impI)
    fix i :: nat assume "i mod 4 \<noteq> 3"
    then have "3 \<noteq> i" by auto
    then show "d ! i = d[3 := v] ! i" by simp
  qed
  have a: "\<forall>i < length ?d1. i mod 4 \<noteq> 3 \<longrightarrow> ?d1 ! i = ?d2 ! i"
    using g[of ?d1 7] by (simp add: numeral_3_eq_3)
  have e: "env2x2\<lparr>imageData := Some ?d1\<rparr> = env2x2" by (simp add: env2x2_def)
  from alpha_independent[OF l a, of env2x2 settings_std st0] show ?thesis
    unfolding e using l by simp
qed


end
